theory Spec2Isabelle
  imports Complex_Main
begin

section \<open>JavaScript numbers\<close>

text \<open>
  Counters, indices and clock readings of the load tester are integers; they are kept as
  \<open>nat\<close> and \<open>int\<close>. A quotient is a double that may be a fraction, \<open>Infinity\<close>,
  \<open>-Infinity\<close> or \<open>NaN\<close>. Finite doubles are kept as exact rationals (rounding is not
  part of the model); the three special values are constructors of their own, so that a
  division by zero is visible in the result.
\<close>

datatype jsnum = Finite rat | Infinity | NegInfinity | NaN

text \<open>\<open>a / b\<close> on two integer-valued numbers. A zero divisor is always \<open>+0\<close> here (a
  difference of two clock readings, or an array length).\<close>

definition js_div :: "int \<Rightarrow> int \<Rightarrow> jsnum" where
  "js_div a b =
     (if b \<noteq> 0 then Finite (of_int a / of_int b)
      else if 0 < a then Infinity
      else if a < 0 then NegInfinity
      else NaN)"

text \<open>\<open>x * k\<close> for an integer constant \<open>k\<close>.\<close>

definition js_times :: "jsnum \<Rightarrow> int \<Rightarrow> jsnum" where
  "js_times x k =
     (case x of
        Finite q \<Rightarrow> Finite (q * of_int k)
      | Infinity \<Rightarrow> (if 0 < k then Infinity else if k < 0 then NegInfinity else NaN)
      | NegInfinity \<Rightarrow> (if 0 < k then NegInfinity else if k < 0 then Infinity else NaN)
      | NaN \<Rightarrow> NaN)"

text \<open>\<open>Math.min(x, l)\<close> for an integer \<open>l\<close>.\<close>

definition js_min :: "jsnum \<Rightarrow> int \<Rightarrow> jsnum" where
  "js_min x l =
     (case x of
        Finite q \<Rightarrow> Finite (min q (of_int l))
      | Infinity \<Rightarrow> Finite (of_int l)
      | NegInfinity \<Rightarrow> NegInfinity
      | NaN \<Rightarrow> NaN)"

text \<open>\<open>x <= y\<close> on numbers; every comparison with \<open>NaN\<close> is false.\<close>

fun js_le :: "jsnum \<Rightarrow> jsnum \<Rightarrow> bool" where
  "js_le NaN _ = False"
| "js_le _ NaN = False"
| "js_le NegInfinity _ = True"
| "js_le _ Infinity = True"
| "js_le (Finite a) (Finite b) = (a \<le> b)"
| "js_le _ _ = False"

section \<open>Data\<close>

text \<open>A generated chat message (\<open>generateMessage\<close> in \<open>utils/dataGenerator.js\<close>).\<close>

record chat_message =
  user_id :: string
  role :: string
  title :: string
  message :: string
  config :: string

text \<open>The configuration object handed to both tests. Values are the integers that
  \<open>parseInt\<close> produced.\<close>

record test_config =
  totalRecords :: int
  batchSize :: int
  concurrency :: int
  userCount :: int
  useBatchInsert :: bool
  totalQueries :: int
  readLimit :: int

text \<open>The outcome of an awaited backend call: the value it resolves to, or the
  \<open>message\<close> of the \<open>Error\<close> it rejects with (the drivers and both wrappers in
  \<open>database/\<close> rethrow the driver's \<open>Error\<close> object).\<close>

datatype 'a awaited = Returns 'a | Throws string

text \<open>The database object as one executor call sees it.\<close>

record database =
  insertBatch :: "chat_message list \<Rightarrow> nat awaited"
  insertMessage :: "chat_message \<Rightarrow> unit awaited"
  getMessagesByUser :: "string \<Rightarrow> int \<Rightarrow> chat_message list awaited"

text \<open>The record returned by \<open>WriteTest.executeBatch\<close>. The \<open>timestamp\<close> is the ISO
  string of a clock reading; it is handed in from outside.\<close>

record batch_record =
  batchIndex :: int
  recordCount :: nat
  latency :: int
  success :: bool
  error :: "string option"
  timestamp :: string

text \<open>\<open>this.results\<close> of a \<open>WriteTest\<close>.\<close>

record write_results =
  w_totalRecords :: nat
  w_totalTime :: int
  w_tps :: jsnum
  w_errors :: nat
  w_batches :: "batch_record list"
  w_avgLatency :: jsnum
  w_minLatency :: jsnum
  w_maxLatency :: int

text \<open>The promise returned by a run. The executor of \<open>new Promise\<close> receives both
  \<open>resolve\<close> and \<open>reject\<close>; a settled promise ignores later calls. \<open>Resolved v\<close> keeps
  the value as it stood when \<open>resolve\<close> was called.\<close>

datatype 'a promise = Pending | Resolved 'a | Rejected string

section \<open>The write test\<close>

text \<open>The constructor's \<open>this.results\<close> (writeTest.js, lines 10 to 19).\<close>

definition WriteTest_results :: write_results where
  "WriteTest_results =
     \<lparr>w_totalRecords = 0, w_totalTime = 0, w_tps = Finite 0, w_errors = 0, w_batches = [],
      w_avgLatency = Finite 0, w_minLatency = Infinity, w_maxLatency = 0\<rparr>"

text \<open>The loop \<open>for (const record of batchData) await insertMessage(record)\<close>: the first
  rejection ends it.\<close>

fun insertEach :: "database \<Rightarrow> chat_message list \<Rightarrow> unit awaited" where
  "insertEach db [] = Returns ()"
| "insertEach db (record # rest) =
     (case insertMessage db record of
        Throws e \<Rightarrow> Throws e
      | Returns _ \<Rightarrow> insertEach db rest)"

text \<open>The \<open>try\<close> body of \<open>executeBatch\<close> up to its last \<open>await\<close>.\<close>

definition writeBatch :: "database \<Rightarrow> test_config \<Rightarrow> chat_message list \<Rightarrow> unit awaited" where
  "writeBatch db cfg batchData =
     (if useBatchInsert cfg then
        (case insertBatch db batchData of Throws e \<Rightarrow> Throws e | Returns _ \<Rightarrow> Returns ())
      else insertEach db batchData)"

text \<open>\<open>executeBatch(batchData, batchIndex)\<close>. \<open>startTime\<close> and \<open>endTime\<close> are the two
  readings of \<open>Date.now()\<close>, \<open>stamp\<close> is \<open>new Date().toISOString()\<close>.\<close>

definition executeBatch ::
  "database \<Rightarrow> test_config \<Rightarrow> chat_message list \<Rightarrow> int \<Rightarrow> int \<Rightarrow> int \<Rightarrow> string \<Rightarrow> batch_record" where
  "executeBatch db cfg batchData batchIdx startT endT stamp =
     (case writeBatch db cfg batchData of
        Returns _ \<Rightarrow>
          \<lparr>batchIndex = batchIdx, recordCount = length batchData, latency = endT - startT,
           success = True, error = None, timestamp = stamp\<rparr>
      | Throws msg \<Rightarrow>
          \<lparr>batchIndex = batchIdx, recordCount = length batchData, latency = endT - startT,
           success = False, error = Some msg, timestamp = stamp\<rparr>)"

text \<open>\<open>Math.ceil(totalRecords / batchSize)\<close>. For integers below \<open>2^53\<close> and a non-zero
  \<open>batchSize\<close> the double quotient rounds to the same ceiling as the exact one. With
  \<open>batchSize = 0\<close> JavaScript yields \<open>Infinity\<close> or \<open>NaN\<close>; that configuration is outside
  this model.\<close>

definition totalBatches :: "test_config \<Rightarrow> int" where
  "totalBatches cfg = \<lceil>(of_int (totalRecords cfg) :: rat) / of_int (batchSize cfg)\<rceil>"

text \<open>\<open>Math.min(batchSize, totalRecords - (batchIndex * batchSize))\<close>.\<close>

definition actualBatchSize :: "test_config \<Rightarrow> int \<Rightarrow> int" where
  "actualBatchSize cfg batchIdx =
     min (batchSize cfg) (totalRecords cfg - batchIdx * batchSize cfg)"

text \<open>\<open>generateMessages(count, userCount)\<close>: the loop pushes one random message per
  \<open>i < count\<close>. The random source \<open>rnd\<close> gives the message generated in iteration \<open>i\<close>.\<close>

definition generateMessages :: "(nat \<Rightarrow> chat_message) \<Rightarrow> int \<Rightarrow> int \<Rightarrow> chat_message list" where
  "generateMessages rnd count users = map rnd [0 ..< nat count]"

definition generateBatch :: "(nat \<Rightarrow> chat_message) \<Rightarrow> int \<Rightarrow> int \<Rightarrow> chat_message list" where
  "generateBatch rnd count users = generateMessages rnd count users"

text \<open>
  The state of one call of \<open>runConcurrentWrites\<close>: its local variables, the instance's
  \<open>this.results\<close>, the promise, the queue of \<open>setImmediate\<close> callbacks (each a pending
  call \<open>processBatch(i)\<close>, run first in first out) and the calls of \<open>processBatch\<close> suspended
  at \<open>await this.executeBatch(...)\<close>, each with its batch and the \<open>startTime\<close> that
  \<open>executeBatch\<close> read.
\<close>

record write_state =
  startTime :: int
  completedBatches :: nat
  activeTasks :: int
  results :: "batch_record list"
  this_results :: write_results
  promise :: "write_results promise"
  immediates :: "int list"
  awaiting :: "(int \<times> chat_message list \<times> int) list"

text \<open>Lines 95 to 104: the counters and latency extremes after a record arrived.\<close>

definition tally :: "write_results \<Rightarrow> batch_record \<Rightarrow> write_results" where
  "tally tr result =
     (let tr1 = (if success result
                 then tr\<lparr>w_totalRecords := w_totalRecords tr + recordCount result\<rparr>
                 else tr\<lparr>w_errors := w_errors tr + 1\<rparr>)
      in tr1\<lparr>w_minLatency := js_min (w_minLatency tr1) (latency result),
             w_maxLatency := max (w_maxLatency tr1) (latency result)\<rparr>)"

text \<open>Lines 121 to 130: the block that runs when the run is found complete.\<close>

definition finish :: "write_results \<Rightarrow> batch_record list \<Rightarrow> int \<Rightarrow> int \<Rightarrow> write_results" where
  "finish tr rs startT endT =
     (let tr1 = tr\<lparr>w_totalTime := endT - startT\<rparr>;
          tr2 = tr1\<lparr>w_tps := js_times (js_div (int (w_totalRecords tr1)) (w_totalTime tr1)) 1000\<rparr>;
          tr3 = tr2\<lparr>w_batches := rs\<rparr>;
          successfulBatches = filter success rs
      in if length successfulBatches > 0
         then tr3\<lparr>w_avgLatency :=
                js_div (sum_list (map latency successfulBatches)) (int (length successfulBatches))\<rparr>
         else tr3)"

text \<open>\<open>resolve(value)\<close>.\<close>

definition resolve :: "'a promise \<Rightarrow> 'a \<Rightarrow> 'a promise" where
  "resolve p v = (case p of Pending \<Rightarrow> Resolved v | _ \<Rightarrow> p)"

text \<open>\<open>processBatch(batchIndex)\<close> from its entry to the \<open>await\<close> (lines 81 to 92).\<close>

definition processBatch_enter ::
  "test_config \<Rightarrow> (nat \<Rightarrow> chat_message) \<Rightarrow> int \<Rightarrow> int \<Rightarrow> write_state \<Rightarrow> write_state" where
  "processBatch_enter cfg rnd now batchIdx s =
     (if batchIdx \<ge> totalBatches cfg then s
      else
        let batchData = generateBatch rnd (actualBatchSize cfg batchIdx) (userCount cfg)
        in s\<lparr>activeTasks := activeTasks s + 1,
              awaiting := awaiting s @ [(batchIdx, batchData, now)]\<rparr>)"

text \<open>\<open>processBatch(batchIndex)\<close> from the \<open>await\<close> to its end (lines 92 to 140), once the
  backend call of \<open>executeBatch\<close> has settled. \<open>endT\<close> and \<open>stamp\<close> are read inside
  \<open>executeBatch\<close>, \<open>now\<close> is the \<open>Date.now()\<close> of line 121. \<open>executeBatch\<close> turns
  every outcome of the backend call into a record, so the \<open>catch\<close> block of lines 112 to
  115 is never entered and has no counterpart here; the progress message of lines 107 to
  110 only prints.\<close>

definition processBatch_resume ::
  "test_config \<Rightarrow> database \<Rightarrow> int \<Rightarrow> string \<Rightarrow> int \<Rightarrow> int \<Rightarrow> chat_message list \<Rightarrow> int
     \<Rightarrow> write_state \<Rightarrow> write_state" where
  "processBatch_resume cfg db endT stamp now batchIdx batchData startT s =
     (let result = executeBatch db cfg batchData batchIdx startT endT stamp;
          rs = results s @ [result];
          completed = (if success result then completedBatches s + 1 else completedBatches s);
          tr = tally (this_results s) result;
          active = activeTasks s - 1;
          s1 = s\<lparr>completedBatches := completed, activeTasks := active, results := rs,
                 this_results := tr\<rparr>
      in if int completed + int (w_errors tr) \<ge> totalBatches cfg \<and> active = 0 then
           let tr' = finish tr rs (startTime s) now
           in s1\<lparr>this_results := tr', promise := resolve (promise s) tr'\<rparr>
         else
           let nextBatchIndex = batchIdx + concurrency cfg
           in if nextBatchIndex < totalBatches cfg
              then s1\<lparr>immediates := immediates s @ [nextBatchIndex]\<rparr>
              else s1)"

text \<open>
  What the event loop can do next. \<open>Immediate rnd now\<close> runs the oldest \<open>setImmediate\<close>
  callback, with the random data and the clock reading it will see. \<open>Settled i db endT
  stamp now\<close> settles the backend call of the suspended \<open>processBatch(i)\<close>: \<open>db\<close> says how
  the backend answered, the rest are the clock readings taken afterwards.
\<close>

datatype event =
    Immediate "nat \<Rightarrow> chat_message" int
  | Settled int database int string int

fun step :: "test_config \<Rightarrow> event \<Rightarrow> write_state \<Rightarrow> write_state option" where
  "step cfg (Immediate rnd now) s =
     (case immediates s of
        [] \<Rightarrow> None
      | i # rest \<Rightarrow> Some (processBatch_enter cfg rnd now i (s\<lparr>immediates := rest\<rparr>)))"
| "step cfg (Settled i db endT stamp now) s =
     (case find (\<lambda>e. fst e = i) (awaiting s) of
        None \<Rightarrow> None
      | Some (_, batchData, startT) \<Rightarrow>
          Some (processBatch_resume cfg db endT stamp now i batchData startT
                  (s\<lparr>awaiting := filter (\<lambda>e. fst e \<noteq> i) (awaiting s)\<rparr>)))"

fun exec :: "test_config \<Rightarrow> event list \<Rightarrow> write_state \<Rightarrow> write_state option" where
  "exec cfg [] s = Some s"
| "exec cfg (e # es) s = (case step cfg e s of None \<Rightarrow> None | Some s' \<Rightarrow> exec cfg es s')"

text \<open>\<open>runConcurrentWrites()\<close> up to the return of the promise (lines 69 to 79 and 144 to
  146): the locals are initialised, \<open>this.results\<close> is the instance's object as it is, and
  the first \<open>Math.min(concurrency, totalBatches)\<close> callbacks are queued.\<close>

definition runConcurrentWrites :: "test_config \<Rightarrow> write_results \<Rightarrow> int \<Rightarrow> write_state" where
  "runConcurrentWrites cfg tr now =
     \<lparr>startTime = now, completedBatches = 0, activeTasks = 0, results = [],
      this_results = tr, promise = Pending,
      immediates = [0 .. min (concurrency cfg) (totalBatches cfg) - 1],
      awaiting = []\<rparr>"

text \<open>Nothing is queued and nothing is in flight: the event loop has no work left for
  this run.\<close>

definition idle :: "write_state \<Rightarrow> bool" where
  "idle s = (immediates s = [] \<and> awaiting s = [])"

text \<open>The condition of line 120, evaluated after the record \<open>r\<close> was counted.\<close>

definition finishing :: "test_config \<Rightarrow> write_state \<Rightarrow> batch_record \<Rightarrow> bool" where
  "finishing cfg s r \<longleftrightarrow>
     int (if success r then completedBatches s + 1 else completedBatches s)
       + int (w_errors (tally (this_results s) r)) \<ge> totalBatches cfg \<and> activeTasks s - 1 = 0"

section \<open>The read test\<close>

text \<open>The record returned by \<open>ReadTest.executeQuery\<close>.\<close>

record query_record =
  queryIndex :: int
  userId :: string
  q_recordCount :: nat
  q_latency :: int
  q_success :: bool
  q_error :: "string option"
  q_timestamp :: string

text \<open>\<open>this.results\<close> of a \<open>ReadTest\<close>.\<close>

record read_results =
  r_totalQueries :: nat
  r_totalRecordsRead :: nat
  r_totalTime :: int
  r_qps :: jsnum
  r_errors :: nat
  r_queries :: "query_record list"
  r_avgLatency :: jsnum
  r_minLatency :: jsnum
  r_maxLatency :: int
  r_avgRecordsPerQuery :: jsnum

text \<open>The constructor's \<open>this.results\<close> (readTest.js, lines 10 to 21).\<close>

definition ReadTest_results :: read_results where
  "ReadTest_results =
     \<lparr>r_totalQueries = 0, r_totalRecordsRead = 0, r_totalTime = 0, r_qps = Finite 0,
      r_errors = 0, r_queries = [], r_avgLatency = Finite 0, r_minLatency = Infinity,
      r_maxLatency = 0, r_avgRecordsPerQuery = Finite 0\<rparr>"

text \<open>\<open>executeQuery(userId, queryIndex)\<close>, with the clock readings handed in as for
  \<open>executeBatch\<close>.\<close>

definition executeQuery ::
  "database \<Rightarrow> test_config \<Rightarrow> string \<Rightarrow> int \<Rightarrow> int \<Rightarrow> int \<Rightarrow> string \<Rightarrow> query_record" where
  "executeQuery db cfg uid queryIdx startT endT stamp =
     (case getMessagesByUser db uid (readLimit cfg) of
        Returns messages \<Rightarrow>
          \<lparr>queryIndex = queryIdx, userId = uid, q_recordCount = length messages,
           q_latency = endT - startT, q_success = True, q_error = None, q_timestamp = stamp\<rparr>
      | Throws msg \<Rightarrow>
          \<lparr>queryIndex = queryIdx, userId = uid, q_recordCount = 0,
           q_latency = endT - startT, q_success = False, q_error = Some msg,
           q_timestamp = stamp\<rparr>)"

text \<open>The state of one call of \<open>runConcurrentReads\<close>, laid out as \<open>write_state\<close>; a
  suspended \<open>processQuery(i)\<close> keeps its \<open>userId\<close> and the \<open>startTime\<close> of
  \<open>executeQuery\<close>.\<close>

record read_state =
  rd_startTime :: int
  completedQueries :: nat
  rd_activeTasks :: int
  rd_results :: "query_record list"
  rd_this_results :: read_results
  rd_promise :: "read_results promise"
  rd_immediates :: "int list"
  rd_awaiting :: "(int \<times> string \<times> int) list"

text \<open>Lines 89 to 98.\<close>

definition read_tally :: "read_results \<Rightarrow> query_record \<Rightarrow> read_results" where
  "read_tally tr result =
     (let tr1 = (if q_success result
                 then tr\<lparr>r_totalRecordsRead := r_totalRecordsRead tr + q_recordCount result\<rparr>
                 else tr\<lparr>r_errors := r_errors tr + 1\<rparr>)
      in tr1\<lparr>r_minLatency := js_min (r_minLatency tr1) (q_latency result),
             r_maxLatency := max (r_maxLatency tr1) (q_latency result)\<rparr>)"

text \<open>Lines 115 to 126.\<close>

definition read_finish ::
  "read_results \<Rightarrow> query_record list \<Rightarrow> nat \<Rightarrow> int \<Rightarrow> int \<Rightarrow> read_results" where
  "read_finish tr rs completed startT endT =
     (let tr1 = tr\<lparr>r_totalTime := endT - startT\<rparr>;
          tr2 = tr1\<lparr>r_totalQueries := completed\<rparr>;
          tr3 = tr2\<lparr>r_qps := js_times (js_div (int (r_totalQueries tr2)) (r_totalTime tr2)) 1000\<rparr>;
          tr4 = tr3\<lparr>r_queries := rs\<rparr>;
          successfulQueries = filter q_success rs
      in if length successfulQueries > 0
         then tr4\<lparr>r_avgLatency :=
                    js_div (sum_list (map q_latency successfulQueries))
                           (int (length successfulQueries)),
                  r_avgRecordsPerQuery :=
                    js_div (int (r_totalRecordsRead tr4)) (int (length successfulQueries))\<rparr>
         else tr4)"

text \<open>\<open>processQuery(queryIndex)\<close> up to the \<open>await\<close> (lines 76 to 86); \<open>uid\<close> is the
  result of \<open>getRandomUserId(userCount)\<close>.\<close>

definition processQuery_enter :: "test_config \<Rightarrow> string \<Rightarrow> int \<Rightarrow> int \<Rightarrow> read_state \<Rightarrow> read_state" where
  "processQuery_enter cfg uid now queryIdx s =
     (if queryIdx \<ge> totalQueries cfg then s
      else s\<lparr>rd_activeTasks := rd_activeTasks s + 1,
             rd_awaiting := rd_awaiting s @ [(queryIdx, uid, now)]\<rparr>)"

text \<open>\<open>processQuery(queryIndex)\<close> from the \<open>await\<close> to its end (lines 86 to 136); as in
  the write test the \<open>catch\<close> block (lines 106 to 109) is never entered.\<close>

definition processQuery_resume ::
  "test_config \<Rightarrow> database \<Rightarrow> int \<Rightarrow> string \<Rightarrow> int \<Rightarrow> int \<Rightarrow> string \<Rightarrow> int
     \<Rightarrow> read_state \<Rightarrow> read_state" where
  "processQuery_resume cfg db endT stamp now queryIdx uid startT s =
     (let result = executeQuery db cfg uid queryIdx startT endT stamp;
          rs = rd_results s @ [result];
          completed = (if q_success result then completedQueries s + 1 else completedQueries s);
          tr = read_tally (rd_this_results s) result;
          active = rd_activeTasks s - 1;
          s1 = s\<lparr>completedQueries := completed, rd_activeTasks := active, rd_results := rs,
                 rd_this_results := tr\<rparr>
      in if int completed + int (r_errors tr) \<ge> totalQueries cfg \<and> active = 0 then
           let tr' = read_finish tr rs completed (rd_startTime s) now
           in s1\<lparr>rd_this_results := tr', rd_promise := resolve (rd_promise s) tr'\<rparr>
         else
           let nextQueryIndex = queryIdx + concurrency cfg
           in if nextQueryIndex < totalQueries cfg
              then s1\<lparr>rd_immediates := rd_immediates s @ [nextQueryIndex]\<rparr>
              else s1)"

text \<open>The condition of line 114, evaluated after the record \<open>r\<close> was counted.\<close>

definition read_finishing :: "test_config \<Rightarrow> read_state \<Rightarrow> query_record \<Rightarrow> bool" where
  "read_finishing cfg s r \<longleftrightarrow>
     int (if q_success r then completedQueries s + 1 else completedQueries s)
       + int (r_errors (read_tally (rd_this_results s) r)) \<ge> totalQueries cfg \<and> rd_activeTasks s - 1 = 0"

text \<open>The events of a read run: the oldest \<open>setImmediate\<close> callback runs (with the user
  id it draws and the clock it reads), or the backend call of query \<open>i\<close> settles.\<close>

datatype read_event =
    ReadImmediate string int
  | ReadSettled int database int string int

fun read_step :: "test_config \<Rightarrow> read_event \<Rightarrow> read_state \<Rightarrow> read_state option" where
  "read_step cfg (ReadImmediate uid now) s =
     (case rd_immediates s of
        [] \<Rightarrow> None
      | i # rest \<Rightarrow> Some (processQuery_enter cfg uid now i (s\<lparr>rd_immediates := rest\<rparr>)))"
| "read_step cfg (ReadSettled i db endT stamp now) s =
     (case find (\<lambda>e. fst e = i) (rd_awaiting s) of
        None \<Rightarrow> None
      | Some (_, uid, startT) \<Rightarrow>
          Some (processQuery_resume cfg db endT stamp now i uid startT
                  (s\<lparr>rd_awaiting := filter (\<lambda>e. fst e \<noteq> i) (rd_awaiting s)\<rparr>)))"

fun read_exec :: "test_config \<Rightarrow> read_event list \<Rightarrow> read_state \<Rightarrow> read_state option" where
  "read_exec cfg [] s = Some s"
| "read_exec cfg (e # es) s =
     (case read_step cfg e s of None \<Rightarrow> None | Some s' \<Rightarrow> read_exec cfg es s')"

text \<open>\<open>runConcurrentReads()\<close> up to the return of the promise (lines 65 to 74 and 140 to
  142).\<close>

definition runConcurrentReads :: "test_config \<Rightarrow> read_results \<Rightarrow> int \<Rightarrow> read_state" where
  "runConcurrentReads cfg tr now =
     \<lparr>rd_startTime = now, completedQueries = 0, rd_activeTasks = 0, rd_results = [],
      rd_this_results = tr, rd_promise = Pending,
      rd_immediates = [0 .. min (concurrency cfg) (totalQueries cfg) - 1],
      rd_awaiting = []\<rparr>"

definition read_idle :: "read_state \<Rightarrow> bool" where
  "read_idle s = (rd_immediates s = [] \<and> rd_awaiting s = [])"

section \<open>The reporter\<close>

text \<open>An array read \<open>arr[i]\<close>: \<open>undefined\<close> outside the array.\<close>

definition js_index :: "'a list \<Rightarrow> nat \<Rightarrow> 'a option" where
  "js_index arr i = (if i < length arr then Some (arr ! i) else None)"

text \<open>\<open>Math.floor(latencies.length * p)\<close> for the three literals \<open>0.5\<close>, \<open>0.95\<close> and
  \<open>0.99\<close> of \<open>generateLatencyAnalysis\<close>, given in percent. The doubles nearest to
  \<open>0.95\<close> and \<open>0.99\<close> lie less than \<open>2^-54\<close> (relative) below them, so for every array
  length below \<open>2^45\<close> the rounded product has the floor of the exact one.\<close>

definition percentileIndex :: "nat \<Rightarrow> nat \<Rightarrow> nat" where
  "percentileIndex n pct = (n * pct) div 100"

text \<open>The block of \<open>generateLatencyAnalysis\<close> that follows the filter (lines 219 to 223,
  and again 234 to 238): nothing is computed or printed for an empty array; otherwise the
  array is sorted with the comparator \<open>(a, b) => a - b\<close> and read at three indices. The
  result is the triple \<open>(p50, p95, p99)\<close> that is printed.\<close>

definition latencyPercentiles :: "int list \<Rightarrow> (int option \<times> int option \<times> int option) option" where
  "latencyPercentiles latencies =
     (if length latencies > 0 then
        let sorted = sort latencies
        in Some (js_index sorted (percentileIndex (length sorted) 50),
                 js_index sorted (percentileIndex (length sorted) 95),
                 js_index sorted (percentileIndex (length sorted) 99))
      else None)"

text \<open>Line 218: \<open>writeResults.batches.filter(b => b.success).map(b => b.latency)\<close>.\<close>

definition writeLatencyPercentiles ::
  "write_results \<Rightarrow> (int option \<times> int option \<times> int option) option" where
  "writeLatencyPercentiles wr = latencyPercentiles (map latency (filter success (w_batches wr)))"

text \<open>Line 233: \<open>readResults.queries.filter(q => q.success).map(q => q.latency)\<close>.\<close>

definition readLatencyPercentiles ::
  "read_results \<Rightarrow> (int option \<times> int option \<times> int option) option" where
  "readLatencyPercentiles rr = latencyPercentiles (map q_latency (filter q_success (r_queries rr)))"

section \<open>Lanes\<close>

text \<open>
  Bookkeeping shared by both tests. \<open>T\<close> is the number of operations, \<open>C\<close> the configured
  concurrency, \<open>ds\<close> the indices that have produced a record, \<open>live\<close> the indices that
  are queued or in flight. Two indices belong to the same lane when they agree modulo
  \<open>C\<close>. \<open>lanes_ok\<close> says: no index occurs twice, all are in range, a lane has at most one
  live index, the live index of a lane comes after all its finished ones, and the
  predecessor \<open>i - C\<close> of every index has finished.
\<close>

definition lanes_ok :: "int \<Rightarrow> int \<Rightarrow> int list \<Rightarrow> int list \<Rightarrow> bool" where
  "lanes_ok T C ds live \<longleftrightarrow>
     distinct (ds @ live) \<and>
     (\<forall>i \<in> set (ds @ live). 0 \<le> i \<and> i < T) \<and>
     (\<forall>i \<in> set live. \<forall>j \<in> set live. i mod C = j mod C \<longrightarrow> i = j) \<and>
     (\<forall>i \<in> set ds. \<forall>j \<in> set live. i mod C = j mod C \<longrightarrow> i < j) \<and>
     (\<forall>i \<in> set (ds @ live). C \<le> i \<longrightarrow> i - C \<in> set ds) \<and>
     (live = [] \<or> 1 \<le> C)"

text \<open>\<open>lanes_live\<close>: every index that has not been reached yet has a live index before it
  in its lane.\<close>

definition lanes_live :: "int \<Rightarrow> int \<Rightarrow> int list \<Rightarrow> int list \<Rightarrow> bool" where
  "lanes_live T C ds live \<longleftrightarrow>
     (\<forall>j. 0 \<le> j \<and> j < T \<and> j \<notin> set (ds @ live) \<longrightarrow>
          (\<exists>k \<in> set live. k mod C = j mod C \<and> k < j))"

text \<open>The indices of a write run that have a record, and those in flight.\<close>

definition attempted :: "write_state \<Rightarrow> int list" where
  "attempted s = map batchIndex (results s)"

definition inflight :: "write_state \<Rightarrow> int list" where
  "inflight s = map fst (awaiting s)"

text \<open>The bookkeeping of a write run agrees with its queue and its suspended calls.\<close>

definition sched_inv :: "test_config \<Rightarrow> write_state \<Rightarrow> bool" where
  "sched_inv cfg s \<longleftrightarrow>
     lanes_ok (totalBatches cfg) (concurrency cfg) (attempted s) (inflight s @ immediates s) \<and>
     activeTasks s = int (length (awaiting s)) \<and>
     completedBatches s = length (filter success (results s))"

text \<open>What the instance's \<open>this.results\<close> holds during a run that started from \<open>r0\<close>.\<close>

definition accum_inv :: "write_results \<Rightarrow> write_state \<Rightarrow> bool" where
  "accum_inv r0 s \<longleftrightarrow>
     w_errors (this_results s) = w_errors r0 + length (filter (\<lambda>r. \<not> success r) (results s)) \<and>
     w_totalRecords (this_results s) =
       w_totalRecords r0 + sum_list (map recordCount (filter success (results s))) \<and>
     w_maxLatency r0 \<le> w_maxLatency (this_results s) \<and>
     (\<forall>r \<in> set (results s). latency r \<le> w_maxLatency (this_results s)) \<and>
     (w_minLatency r0 \<noteq> NaN \<longrightarrow>
        js_le (w_minLatency (this_results s)) (w_minLatency r0) \<and>
        (\<forall>r \<in> set (results s). js_le (w_minLatency (this_results s)) (Finite (of_int (latency r)))))"

text \<open>The fields written by the completion block, as they stand in a resolved value.\<close>

definition completion_form :: "write_results \<Rightarrow> bool" where
  "completion_form r \<longleftrightarrow>
     w_tps r = js_times (js_div (int (w_totalRecords r)) (w_totalTime r)) 1000 \<and>
     (filter success (w_batches r) \<noteq> [] \<longrightarrow>
        w_avgLatency r =
          js_div (sum_list (map latency (filter success (w_batches r))))
                 (int (length (filter success (w_batches r)))))"

text \<open>A run on a new instance: while records are missing the promise is pending and
  every missing index still has a live predecessor; once all \<open>totalBatches\<close> records are
  there the promise holds \<open>this.results\<close>, completed.\<close>

definition fresh_inv :: "test_config \<Rightarrow> write_state \<Rightarrow> bool" where
  "fresh_inv cfg s \<longleftrightarrow>
     sched_inv cfg s \<and> accum_inv WriteTest_results s \<and>
     lanes_live (totalBatches cfg) (concurrency cfg) (attempted s) (inflight s @ immediates s) \<and>
     (if int (length (results s)) < totalBatches cfg
      then promise s = Pending \<and> w_avgLatency (this_results s) = Finite 0
      else promise s = Resolved (this_results s) \<and>
           w_batches (this_results s) = results s \<and>
           completion_form (this_results s) \<and>
           (filter success (results s) = [] \<longrightarrow> w_avgLatency (this_results s) = Finite 0))"

text \<open>The same bookkeeping for a read run.\<close>

definition read_attempted :: "read_state \<Rightarrow> int list" where
  "read_attempted s = map queryIndex (rd_results s)"

definition read_inflight :: "read_state \<Rightarrow> int list" where
  "read_inflight s = map fst (rd_awaiting s)"

definition read_sched_inv :: "test_config \<Rightarrow> read_state \<Rightarrow> bool" where
  "read_sched_inv cfg s \<longleftrightarrow>
     lanes_ok (totalQueries cfg) (concurrency cfg) (read_attempted s)
       (read_inflight s @ rd_immediates s) \<and>
     rd_activeTasks s = int (length (rd_awaiting s)) \<and>
     completedQueries s = length (filter q_success (rd_results s))"

definition read_accum_inv :: "read_results \<Rightarrow> read_state \<Rightarrow> bool" where
  "read_accum_inv r0 s \<longleftrightarrow>
     r_errors (rd_this_results s) =
       r_errors r0 + length (filter (\<lambda>r. \<not> q_success r) (rd_results s)) \<and>
     r_totalRecordsRead (rd_this_results s) =
       r_totalRecordsRead r0 + sum_list (map q_recordCount (filter q_success (rd_results s))) \<and>
     r_maxLatency r0 \<le> r_maxLatency (rd_this_results s) \<and>
     (\<forall>r \<in> set (rd_results s). q_latency r \<le> r_maxLatency (rd_this_results s)) \<and>
     (r_minLatency r0 \<noteq> NaN \<longrightarrow>
        js_le (r_minLatency (rd_this_results s)) (r_minLatency r0) \<and>
        (\<forall>r \<in> set (rd_results s).
           js_le (r_minLatency (rd_this_results s)) (Finite (of_int (q_latency r)))))"

definition read_completion_form :: "read_results \<Rightarrow> bool" where
  "read_completion_form r \<longleftrightarrow>
     r_qps r = js_times (js_div (int (r_totalQueries r)) (r_totalTime r)) 1000 \<and>
     r_totalQueries r = length (filter q_success (r_queries r)) \<and>
     (filter q_success (r_queries r) \<noteq> [] \<longrightarrow>
        r_avgLatency r =
          js_div (sum_list (map q_latency (filter q_success (r_queries r))))
                 (int (length (filter q_success (r_queries r)))))"

definition read_fresh_inv :: "test_config \<Rightarrow> read_state \<Rightarrow> bool" where
  "read_fresh_inv cfg s \<longleftrightarrow>
     read_sched_inv cfg s \<and> read_accum_inv ReadTest_results s \<and>
     lanes_live (totalQueries cfg) (concurrency cfg) (read_attempted s)
       (read_inflight s @ rd_immediates s) \<and>
     (if int (length (rd_results s)) < totalQueries cfg
      then rd_promise s = Pending \<and> r_avgLatency (rd_this_results s) = Finite 0
      else rd_promise s = Resolved (rd_this_results s) \<and>
           r_queries (rd_this_results s) = rd_results s \<and>
           read_completion_form (rd_this_results s) \<and>
           (filter q_success (rd_results s) = [] \<longrightarrow>
              r_avgLatency (rd_this_results s) = Finite 0))"

text \<open>What a settled promise of a write run holds, for a run that started from \<open>r0\<close>: the
  promise is never rejected, and a resolved value has the completion fields and counters
  that are not below those of \<open>r0\<close>.\<close>

definition resolved_inv :: "write_results \<Rightarrow> write_state \<Rightarrow> bool" where
  "resolved_inv r0 s \<longleftrightarrow>
     (case promise s of
        Pending \<Rightarrow> True
      | Rejected e \<Rightarrow> False
      | Resolved r \<Rightarrow>
          completion_form r \<and> w_errors r0 \<le> w_errors r \<and>
          w_totalRecords r0 \<le> w_totalRecords r \<and> w_maxLatency r0 \<le> w_maxLatency r \<and>
          (w_minLatency r0 \<noteq> NaN \<longrightarrow> js_le (w_minLatency r) (w_minLatency r0)))"

definition read_resolved_inv :: "read_results \<Rightarrow> read_state \<Rightarrow> bool" where
  "read_resolved_inv r0 s \<longleftrightarrow>
     (case rd_promise s of
        Pending \<Rightarrow> True
      | Rejected e \<Rightarrow> False
      | Resolved r \<Rightarrow>
          read_completion_form r \<and> r_errors r0 \<le> r_errors r \<and>
          r_totalRecordsRead r0 \<le> r_totalRecordsRead r \<and> r_maxLatency r0 \<le> r_maxLatency r \<and>
          (r_minLatency r0 \<noteq> NaN \<longrightarrow> js_le (r_minLatency r) (r_minLatency r0)))"

text \<open>
  The indices visited by the chain of calls that starts with \<open>processBatch(i)\<close> (or
  \<open>processQuery(i)\<close>): a call with an index at or past the total returns at once, every
  other call hands \<open>i + concurrency\<close> to the next one. No chain exists for a concurrency
  below one, since the initial loop then queues nothing.
\<close>

function stride_chain :: "int \<Rightarrow> int \<Rightarrow> int \<Rightarrow> int list" where
  "stride_chain T C i = (if 1 \<le> C \<and> i < T then i # stride_chain T C (i + C) else [])"
  by pat_completeness auto
termination
  by (relation "measure (\<lambda>(T, C, i). nat (T - i))") auto

declare stride_chain.simps [simp del]

text \<open>The lane of an index: its residue modulo the effective concurrency
  \<open>Math.min(concurrency, total)\<close>, the bound of the initial loop.\<close>

definition lane_of :: "int \<Rightarrow> int \<Rightarrow> int \<Rightarrow> int" where
  "lane_of T C i = i mod (min C T)"

section \<open>Sample inputs\<close>

definition sample_message :: chat_message where
  "sample_message =
     \<lparr>user_id = ''user_1'', role = ''user'', title = ''Data Science'',
      message = ''data'', config = ''data''\<rparr>"

definition sample_rnd :: "nat \<Rightarrow> chat_message" where
  "sample_rnd = (\<lambda>_. sample_message)"

text \<open>A backend that answers every call, and one that rejects every call.\<close>

definition db_ok :: database where
  "db_ok =
     \<lparr>insertBatch = (\<lambda>dataArray. Returns (length dataArray)),
      insertMessage = (\<lambda>_. Returns ()),
      getMessagesByUser = (\<lambda>_ _. Returns [sample_message])\<rparr>"

definition db_down :: database where
  "db_down =
     \<lparr>insertBatch = (\<lambda>_. Throws ''connection lost''),
      insertMessage = (\<lambda>_. Throws ''connection lost''),
      getMessagesByUser = (\<lambda>_ _. Throws ''connection lost'')\<rparr>"

text \<open>Five records in batches of two with two workers (three batches), and three
  queries.\<close>

definition cfg_small :: test_config where
  "cfg_small =
     \<lparr>totalRecords = 5, batchSize = 2, concurrency = 2, userCount = 1000,
      useBatchInsert = True, totalQueries = 3, readLimit = 100\<rparr>"

text \<open>One batch and one query, one worker.\<close>

definition cfg_single :: test_config where
  "cfg_single =
     \<lparr>totalRecords = 2, batchSize = 2, concurrency = 1, userCount = 1000,
      useBatchInsert = True, totalQueries = 1, readLimit = 100\<rparr>"

text \<open>Nothing to write and nothing to read.\<close>

definition cfg_empty :: test_config where
  "cfg_empty =
     \<lparr>totalRecords = 0, batchSize = 20, concurrency = 10, userCount = 1000,
      useBatchInsert = True, totalQueries = 0, readLimit = 100\<rparr>"

text \<open>Five operations with two workers.\<close>

definition cfg_five :: test_config where
  "cfg_five =
     \<lparr>totalRecords = 5, batchSize = 1, concurrency = 2, userCount = 1000,
      useBatchInsert = False, totalQueries = 5, readLimit = 100\<rparr>"

text \<open>Sample schedules. Two workers have entered their first batch of \<open>cfg_small\<close>.\<close>

definition evs_two_started :: "event list" where
  "evs_two_started = [Immediate sample_rnd 1, Immediate sample_rnd 1]"

text \<open>A whole write run of \<open>cfg_small\<close>; the second batch fails.\<close>

definition evs_small :: "event list" where
  "evs_small =
     [Immediate sample_rnd 1, Immediate sample_rnd 1,
      Settled 0 db_ok 5 ''t5'' 5, Settled 1 db_down 6 ''t6'' 6,
      Immediate sample_rnd 7, Settled 2 db_ok 9 ''t9'' 10]"

text \<open>A whole read run of \<open>cfg_small\<close>; the second query fails.\<close>

definition revs_two_started :: "read_event list" where
  "revs_two_started = [ReadImmediate ''user_7'' 1, ReadImmediate ''user_8'' 1]"

definition revs_small :: "read_event list" where
  "revs_small =
     [ReadImmediate ''user_7'' 1, ReadImmediate ''user_8'' 1,
      ReadSettled 0 db_ok 5 ''t5'' 5, ReadSettled 1 db_down 6 ''t6'' 6,
      ReadImmediate ''user_9'' 7, ReadSettled 2 db_ok 9 ''t9'' 10]"

text \<open>Five operations, two workers, a backend that always fails.\<close>

definition evs_five_failing :: "event list" where
  "evs_five_failing =
     [Immediate sample_rnd 1, Immediate sample_rnd 1,
      Settled 0 db_down 2 ''t2'' 2, Immediate sample_rnd 2,
      Settled 1 db_down 3 ''t3'' 3, Immediate sample_rnd 3,
      Settled 2 db_down 4 ''t4'' 4, Immediate sample_rnd 4,
      Settled 3 db_down 5 ''t5'' 5, Settled 4 db_down 6 ''t6'' 6]"

text \<open>One batch, answered within the millisecond in which the run started.\<close>

definition evs_instant :: "event list" where
  "evs_instant = [Immediate sample_rnd 0, Settled 0 db_ok 0 ''t0'' 0]"

definition revs_instant :: "read_event list" where
  "revs_instant = [ReadImmediate ''user_7'' 0, ReadSettled 0 db_ok 0 ''t0'' 0]"

text \<open>One batch that fails, and one that succeeds later.\<close>

definition evs_one_failing :: "event list" where
  "evs_one_failing = [Immediate sample_rnd 0, Settled 0 db_down 3 ''t3'' 4]"

definition evs_one_ok :: "event list" where
  "evs_one_ok = [Immediate sample_rnd 10, Settled 0 db_ok 12 ''t12'' 13]"

definition revs_one_failing :: "read_event list" where
  "revs_one_failing = [ReadImmediate ''user_7'' 0, ReadSettled 0 db_down 3 ''t3'' 4]"

definition revs_one_ok :: "read_event list" where
  "revs_one_ok = [ReadImmediate ''user_7'' 10, ReadSettled 0 db_ok 12 ''t12'' 13]"

text \<open>The state a schedule leads to (only used where the schedule is one of the run).\<close>

definition write_after :: "test_config \<Rightarrow> write_results \<Rightarrow> int \<Rightarrow> event list \<Rightarrow> write_state" where
  "write_after cfg tr now evs = the (exec cfg evs (runConcurrentWrites cfg tr now))"

definition read_after :: "test_config \<Rightarrow> read_results \<Rightarrow> int \<Rightarrow> read_event list \<Rightarrow> read_state" where
  "read_after cfg tr now evs = the (read_exec cfg evs (runConcurrentReads cfg tr now))"

text \<open>The states the sample schedules lead to, on new instances.\<close>

definition st_small :: write_state where
  "st_small = write_after cfg_small WriteTest_results 0 evs_small"

definition rst_small :: read_state where
  "rst_small = read_after cfg_small ReadTest_results 0 revs_small"

definition st_five_failing :: write_state where
  "st_five_failing = write_after cfg_five WriteTest_results 0 evs_five_failing"

definition st_instant :: write_state where
  "st_instant = write_after cfg_single WriteTest_results 0 evs_instant"

definition rst_instant :: read_state where
  "rst_instant = read_after cfg_single ReadTest_results 0 revs_instant"

text \<open>Two runs on the same instance: the second starts from the \<open>this.results\<close> that
  the first one left.\<close>

definition st_first :: write_state where
  "st_first = write_after cfg_single WriteTest_results 0 evs_one_failing"

definition st_second :: write_state where
  "st_second = write_after cfg_single (this_results st_first) 10 evs_one_ok"

definition rst_first :: read_state where
  "rst_first = read_after cfg_single ReadTest_results 0 revs_one_failing"

definition rst_second :: read_state where
  "rst_second = read_after cfg_single (rd_this_results rst_first) 10 revs_one_ok"

text \<open>Two batches with one worker, run twice on the same instance: in the first run the
  first batch fails; the second run is answered without failure.\<close>

definition cfg_two :: test_config where
  "cfg_two =
     \<lparr>totalRecords = 4, batchSize = 2, concurrency = 1, userCount = 1000,
      useBatchInsert = True, totalQueries = 2, readLimit = 100\<rparr>"

definition evs_two_first :: "event list" where
  "evs_two_first =
     [Immediate sample_rnd 0, Settled 0 db_down 3 ''t3'' 3,
      Immediate sample_rnd 4, Settled 1 db_ok 6 ''t6'' 7]"

definition evs_two_second :: "event list" where
  "evs_two_second = [Immediate sample_rnd 10, Settled 0 db_ok 12 ''t12'' 13]"

definition st_two_first :: write_state where
  "st_two_first = write_after cfg_two WriteTest_results 0 evs_two_first"

definition st_two_second :: write_state where
  "st_two_second = write_after cfg_two (this_results st_two_first) 10 evs_two_second"

text \<open>One batch that fails within the millisecond in which the run started.\<close>

definition evs_failing_instant :: "event list" where
  "evs_failing_instant = [Immediate sample_rnd 0, Settled 0 db_down 0 ''t0'' 0]"

definition st_failing_instant :: write_state where
  "st_failing_instant = write_after cfg_single WriteTest_results 0 evs_failing_instant"

text \<open>A backend that finds three rows for every user, and one query that it answers after
  four milliseconds.\<close>

definition db_three :: database where
  "db_three =
     \<lparr>insertBatch = (\<lambda>dataArray. Returns (length dataArray)),
      insertMessage = (\<lambda>_. Returns ()),
      getMessagesByUser = (\<lambda>_ _. Returns [sample_message, sample_message, sample_message])\<rparr>"

definition revs_three_rows :: "read_event list" where
  "revs_three_rows = [ReadImmediate ''user_7'' 0, ReadSettled 0 db_three 4 ''t4'' 4]"

definition rst_three_rows :: read_state where
  "rst_three_rows = read_after cfg_single ReadTest_results 0 revs_three_rows"

section \<open>Lemmas\<close>

subsection \<open>Lane bookkeeping\<close>

lemma lanes_ok_init: "lanes_ok T C [] [0 .. min C T - 1]"
  unfolding lanes_ok_def
  by (auto simp: mod_pos_pos_trivial)

lemma lanes_ok_perm: "lanes_ok T C ds live \<Longrightarrow> set live' = set live \<Longrightarrow> distinct live' \<Longrightarrow> lanes_ok T C ds live'"
  unfolding lanes_ok_def by auto

lemma same_lane_next:
  assumes "(1::int) \<le> C" "i mod C = j mod C" "i < j"
  shows "i + C \<le> j"
proof -
  have "j mod C = i mod C" using assms(2) by simp
  then have "C dvd (j - i)" by (simp add: mod_eq_dvd_iff)
  then obtain k where k: "j - i = C * k" by (auto simp: dvd_def)
  have "0 < C * k" using assms(3) k by simp
  then have "0 < k" using assms(1) by (simp add: zero_less_mult_iff)
  then have "C * 1 \<le> C * k" using assms(1) by (intro mult_left_mono) auto
  then show ?thesis using k by simp
qed

lemma lanes_ok_stop:
  assumes "lanes_ok T C ds live" "i \<in> set live"
  shows "lanes_ok T C (ds @ [i]) (filter (\<lambda>x. x \<noteq> i) live)"
  using assms unfolding lanes_ok_def
  by auto

lemma lanes_ok_next:
  assumes "lanes_ok T C ds live" "i \<in> set live" "i + C < T"
  shows "lanes_ok T C (ds @ [i]) (filter (\<lambda>x. x \<noteq> i) live @ [i + C])"
proof -
  from assms(1) have d: "distinct (ds @ live)"
    and r: "\<forall>i\<in>set (ds @ live). 0 \<le> i \<and> i < T"
    and u: "\<forall>i\<in>set live. \<forall>j\<in>set live. i mod C = j mod C \<longrightarrow> i = j"
    and ord: "\<forall>i\<in>set ds. \<forall>j\<in>set live. i mod C = j mod C \<longrightarrow> i < j"
    and p: "\<forall>i\<in>set (ds @ live). C \<le> i \<longrightarrow> i - C \<in> set ds"
    and c: "live = [] \<or> 1 \<le> C"
    unfolding lanes_ok_def by blast+
  from assms(2) c have C1: "1 \<le> C" by auto
  have m: "(i + C) mod C = i mod C" by simp
  have n1: "i + C \<notin> set ds"
  proof
    assume "i + C \<in> set ds"
    with ord assms(2) m have "i + C < i" by blast
    with C1 show False by simp
  qed
  have n2: "i + C \<notin> set live"
  proof
    assume "i + C \<in> set live"
    with u assms(2) m have "i + C = i" by blast
    with C1 show False by simp
  qed
  have i0: "0 \<le> i" using r assms(2) by auto
  have o2: "\<And>k. k \<in> set ds \<Longrightarrow> k mod C = i mod C \<Longrightarrow> k < i + C"
  proof -
    fix k assume "k \<in> set ds" "k mod C = i mod C"
    with ord assms(2) have "k < i" by blast
    with C1 show "k < i + C" by simp
  qed
  have u2: "\<And>k. k \<in> set live \<Longrightarrow> k mod C = i mod C \<Longrightarrow> k = i"
    using u assms(2) by blast
  show ?thesis
    unfolding lanes_ok_def
  proof (intro conjI)
    show "distinct ((ds @ [i]) @ filter (\<lambda>x. x \<noteq> i) live @ [i + C])"
      using d n1 n2 C1 assms(2) by auto
    show "\<forall>k\<in>set ((ds @ [i]) @ filter (\<lambda>x. x \<noteq> i) live @ [i + C]). 0 \<le> k \<and> k < T"
      using r assms(2,3) i0 C1 by auto
    show "\<forall>a\<in>set (filter (\<lambda>x. x \<noteq> i) live @ [i + C]).
            \<forall>b\<in>set (filter (\<lambda>x. x \<noteq> i) live @ [i + C]). a mod C = b mod C \<longrightarrow> a = b"
      using u u2 by auto
    show "\<forall>a\<in>set (ds @ [i]). \<forall>b\<in>set (filter (\<lambda>x. x \<noteq> i) live @ [i + C]).
            a mod C = b mod C \<longrightarrow> a < b"
      using ord o2 u2 C1 by auto
    show "\<forall>k\<in>set ((ds @ [i]) @ filter (\<lambda>x. x \<noteq> i) live @ [i + C]). C \<le> k \<longrightarrow> k - C \<in> set (ds @ [i])"
      using p assms(2) by auto
    show "filter (\<lambda>x. x \<noteq> i) live @ [i + C] = [] \<or> 1 \<le> C"
      using C1 by simp
  qed
qed

lemma lanes_live_init:
  assumes "1 \<le> C"
  shows "lanes_live T C [] [0 .. min C T - 1]"
  unfolding lanes_live_def
proof (intro allI impI)
  fix j assume j: "0 \<le> j \<and> j < T \<and> j \<notin> set ([] @ [0 .. min C T - 1])"
  then have "min C T \<le> j" by auto
  with j have Cj: "C \<le> j" and CT: "C \<le> T" by auto
  let ?k = "j mod C"
  have "0 \<le> ?k" "?k < C" using assms by auto
  then have "?k \<in> set [0 .. min C T - 1]" using CT by auto
  moreover have "?k mod C = j mod C" by simp
  moreover have "?k < j" using \<open>?k < C\<close> Cj by simp
  ultimately show "\<exists>k\<in>set [0 .. min C T - 1]. k mod C = j mod C \<and> k < j" by blast
qed

lemma lanes_live_perm: "lanes_live T C ds live \<Longrightarrow> set live' = set live \<Longrightarrow> lanes_live T C ds live'"
  unfolding lanes_live_def by auto

lemma lanes_live_stop:
  assumes "lanes_live T C ds live" "i \<in> set live" "\<not> i + C < T" "1 \<le> C"
  shows "lanes_live T C (ds @ [i]) (filter (\<lambda>x. x \<noteq> i) live)"
  unfolding lanes_live_def
proof (intro allI impI)
  fix j assume j: "0 \<le> j \<and> j < T \<and> j \<notin> set ((ds @ [i]) @ filter (\<lambda>x. x \<noteq> i) live)"
  then have "j \<notin> set (ds @ live)" "j \<noteq> i" by auto
  with assms(1) j obtain k where k: "k \<in> set live" "k mod C = j mod C" "k < j"
    unfolding lanes_live_def by blast
  have "k \<noteq> i"
  proof
    assume "k = i"
    with k assms(4) have "i + C \<le> j" using same_lane_next by blast
    with j assms(3) show False by simp
  qed
  with k show "\<exists>k\<in>set (filter (\<lambda>x. x \<noteq> i) live). k mod C = j mod C \<and> k < j" by auto
qed

lemma lanes_live_next:
  assumes "lanes_live T C ds live" "i \<in> set live" "i + C < T" "1 \<le> C"
  shows "lanes_live T C (ds @ [i]) (filter (\<lambda>x. x \<noteq> i) live @ [i + C])"
  unfolding lanes_live_def
proof (intro allI impI)
  fix j assume j: "0 \<le> j \<and> j < T \<and> j \<notin> set ((ds @ [i]) @ filter (\<lambda>x. x \<noteq> i) live @ [i + C])"
  then have "j \<notin> set (ds @ live)" "j \<noteq> i" "j \<noteq> i + C" by auto
  with assms(1) j obtain k where k: "k \<in> set live" "k mod C = j mod C" "k < j"
    unfolding lanes_live_def by blast
  show "\<exists>k\<in>set (filter (\<lambda>x. x \<noteq> i) live @ [i + C]). k mod C = j mod C \<and> k < j"
  proof (cases "k = i")
    case True
    with k assms(4) have "i + C \<le> j" using same_lane_next by blast
    with \<open>j \<noteq> i + C\<close> have "i + C < j" by simp
    moreover have "(i + C) mod C = j mod C" using k True by simp
    ultimately show ?thesis by auto
  next
    case False
    with k show ?thesis by auto
  qed
qed

lemma distinct_range_length:
  assumes "distinct xs" "\<forall>i \<in> set xs. 0 \<le> i \<and> i < (T::int)"
  shows "int (length xs) \<le> max 0 T"
proof -
  have "set xs \<subseteq> {0 ..< T}" using assms(2) by auto
  then have "card (set xs) \<le> card {0 ..< T}" by (intro card_mono) auto
  then have "length xs \<le> nat T" using assms(1) by (simp add: distinct_card)
  then show ?thesis by linarith
qed

lemma distinct_range_full:
  assumes "distinct xs" "\<forall>i \<in> set xs. 0 \<le> i \<and> i < (T::int)" "T \<le> int (length xs)"
  shows "set xs = {0 ..< T}"
proof -
  have sub: "set xs \<subseteq> {0 ..< T}" using assms(2) by auto
  have "card {0 ..< T} = nat T" by simp
  also have "\<dots> \<le> length xs" using assms(3) by linarith
  also have "\<dots> = card (set xs)" using assms(1) by (simp add: distinct_card)
  finally have "card {0 ..< T} \<le> card (set xs)" .
  with sub show ?thesis by (intro card_seteq) auto
qed

lemma lanes_bound:
  assumes "distinct xs" "\<forall>i \<in> set xs. \<forall>j \<in> set xs. i mod C = j mod C \<longrightarrow> i = j" "1 \<le> (C::int)"
  shows "int (length xs) \<le> C"
proof -
  have inj: "inj_on (\<lambda>i. i mod C) (set xs)" using assms(2) by (auto simp: inj_on_def)
  have "(\<lambda>i. i mod C) ` set xs \<subseteq> {0 ..< C}" using assms(3) by auto
  then have "card ((\<lambda>i. i mod C) ` set xs) \<le> card {0 ..< C}" by (intro card_mono) auto
  then have "card (set xs) \<le> nat C" using inj by (simp add: card_image)
  then have "length xs \<le> nat C" using assms(1) by (simp add: distinct_card)
  then show ?thesis using assms(3) by linarith
qed


lemma lanes_ok_settle_stop:
  assumes "lanes_ok T C ds (fl @ q)" "i \<in> set fl"
  shows "lanes_ok T C (ds @ [i]) (filter (\<lambda>x. x \<noteq> i) fl @ q)"
proof -
  have "distinct (fl @ q)" using assms(1) unfolding lanes_ok_def by auto
  with assms(2) have "filter (\<lambda>x. x \<noteq> i) q = q" by (auto simp: filter_id_conv)
  then have "filter (\<lambda>x. x \<noteq> i) (fl @ q) = filter (\<lambda>x. x \<noteq> i) fl @ q" by simp
  with lanes_ok_stop [OF assms(1), of i] assms(2) show ?thesis by simp
qed

lemma lanes_ok_settle_next:
  assumes "lanes_ok T C ds (fl @ q)" "i \<in> set fl" "i + C < T"
  shows "lanes_ok T C (ds @ [i]) (filter (\<lambda>x. x \<noteq> i) fl @ q @ [i + C])"
proof -
  have "distinct (fl @ q)" using assms(1) unfolding lanes_ok_def by auto
  with assms(2) have "filter (\<lambda>x. x \<noteq> i) q = q" by (auto simp: filter_id_conv)
  then have "filter (\<lambda>x. x \<noteq> i) (fl @ q) = filter (\<lambda>x. x \<noteq> i) fl @ q" by simp
  with lanes_ok_next [OF assms(1) _ assms(3)] assms(2) show ?thesis by simp
qed

lemma lanes_live_settle_stop:
  assumes "lanes_live T C ds (fl @ q)" "distinct (fl @ q)" "i \<in> set fl" "\<not> i + C < T" "1 \<le> C"
  shows "lanes_live T C (ds @ [i]) (filter (\<lambda>x. x \<noteq> i) fl @ q)"
proof -
  from assms(2,3) have "filter (\<lambda>x. x \<noteq> i) q = q" by (auto simp: filter_id_conv)
  then have "filter (\<lambda>x. x \<noteq> i) (fl @ q) = filter (\<lambda>x. x \<noteq> i) fl @ q" by simp
  with lanes_live_stop [OF assms(1) _ assms(4,5)] assms(3) show ?thesis by simp
qed

lemma lanes_live_settle_next:
  assumes "lanes_live T C ds (fl @ q)" "distinct (fl @ q)" "i \<in> set fl" "i + C < T" "1 \<le> C"
  shows "lanes_live T C (ds @ [i]) (filter (\<lambda>x. x \<noteq> i) fl @ q @ [i + C])"
proof -
  from assms(2,3) have "filter (\<lambda>x. x \<noteq> i) q = q" by (auto simp: filter_id_conv)
  then have "filter (\<lambda>x. x \<noteq> i) (fl @ q) = filter (\<lambda>x. x \<noteq> i) fl @ q" by simp
  with lanes_live_next [OF assms(1) _ assms(4,5)] assms(3) show ?thesis by simp
qed

lemma lanes_live_full:
  assumes "set ds = {0 ..< T}"
  shows "lanes_live T C ds live"
  using assms unfolding lanes_live_def by auto

lemma lanes_ok_full:
  assumes "lanes_ok T C ds live" "T \<le> int (length ds)"
  shows "set ds = {0 ..< T} \<and> live = []"
proof -
  have d: "distinct (ds @ live)" and r: "\<forall>i\<in>set (ds @ live). 0 \<le> i \<and> i < T"
    using assms(1) unfolding lanes_ok_def by blast+
  have "int (length (ds @ live)) \<le> max 0 T" using d r by (rule distinct_range_length)
  with assms(2) have "live = []" by (cases live) auto
  moreover have "set ds = {0 ..< T}" using d r assms(2) by (intro distinct_range_full) auto
  ultimately show ?thesis by simp
qed

lemma lanes_ok_inflight_bound:
  assumes "lanes_ok T C ds (fl @ q)"
  shows "int (length fl) \<le> max 0 (min C T)"
proof (cases "fl = []")
  case True then show ?thesis by simp
next
  case False
  with assms have C1: "1 \<le> C" unfolding lanes_ok_def by auto
  have d: "distinct fl" using assms unfolding lanes_ok_def by auto
  have "\<forall>i \<in> set fl. \<forall>j \<in> set fl. i mod C = j mod C \<longrightarrow> i = j"
    using assms unfolding lanes_ok_def by auto
  with d C1 have "int (length fl) \<le> C" by (intro lanes_bound) auto
  moreover have "int (length fl) \<le> max 0 T"
    using d assms unfolding lanes_ok_def by (intro distinct_range_length) auto
  ultimately show ?thesis using C1 by auto
qed

subsection \<open>The write run: fields after a step\<close>

lemma executeBatch_fields [simp]:
  "batchIndex (executeBatch db cfg bd i st e stamp) = i"
  "recordCount (executeBatch db cfg bd i st e stamp) = length bd"
  "latency (executeBatch db cfg bd i st e stamp) = e - st"
  "timestamp (executeBatch db cfg bd i st e stamp) = stamp"
  by (simp_all add: executeBatch_def split: awaited.splits)

lemma tally_fields [simp]:
  "w_errors (tally tr r) = (if success r then w_errors tr else w_errors tr + 1)"
  "w_totalRecords (tally tr r) = (if success r then w_totalRecords tr + recordCount r else w_totalRecords tr)"
  "w_maxLatency (tally tr r) = max (w_maxLatency tr) (latency r)"
  "w_minLatency (tally tr r) = js_min (w_minLatency tr) (latency r)"
  "w_avgLatency (tally tr r) = w_avgLatency tr"
  "w_tps (tally tr r) = w_tps tr"
  "w_batches (tally tr r) = w_batches tr"
  "w_totalTime (tally tr r) = w_totalTime tr"
  by (simp_all add: tally_def Let_def)

lemma finish_fields [simp]:
  "w_errors (finish tr rs a b) = w_errors tr"
  "w_totalRecords (finish tr rs a b) = w_totalRecords tr"
  "w_maxLatency (finish tr rs a b) = w_maxLatency tr"
  "w_minLatency (finish tr rs a b) = w_minLatency tr"
  "w_batches (finish tr rs a b) = rs"
  "w_totalTime (finish tr rs a b) = b - a"
  "w_tps (finish tr rs a b) = js_times (js_div (int (w_totalRecords tr)) (b - a)) 1000"
  "w_avgLatency (finish tr rs a b) =
     (if filter success rs = [] then w_avgLatency tr
      else js_div (sum_list (map latency (filter success rs))) (int (length (filter success rs))))"
  by (simp_all add: finish_def Let_def)

lemma completion_form_finish: "completion_form (finish tr rs a b)"
  by (simp add: completion_form_def)


lemma resume_fields:
  fixes s cfg db endT stamp now i bd st
  defines "r \<equiv> executeBatch db cfg bd i st endT stamp"
  defines "s' \<equiv> processBatch_resume cfg db endT stamp now i bd st s"
  shows "results s' = results s @ [r]"
    and "awaiting s' = awaiting s"
    and "activeTasks s' = activeTasks s - 1"
    and "completedBatches s' = (if success r then completedBatches s + 1 else completedBatches s)"
    and "startTime s' = startTime s"
    and "immediates s' =
          (if finishing cfg s r then immediates s
           else if i + concurrency cfg < totalBatches cfg then immediates s @ [i + concurrency cfg]
           else immediates s)"
    and "this_results s' =
          (if finishing cfg s r then finish (tally (this_results s) r) (results s @ [r]) (startTime s) now
           else tally (this_results s) r)"
    and "promise s' =
          (if finishing cfg s r
           then resolve (promise s) (finish (tally (this_results s) r) (results s @ [r]) (startTime s) now)
           else promise s)"
  unfolding r_def s'_def finishing_def
  by (simp_all add: processBatch_resume_def Let_def)


lemma find_fst_Some:
  "find (\<lambda>e. fst e = i) xs = Some (a, b, c) \<Longrightarrow> a = i \<and> (i, b, c) \<in> set xs"
  by (induction xs) (auto split: if_splits)

lemma map_fst_filter: "map fst (filter (\<lambda>e. fst e \<noteq> i) xs) = filter (\<lambda>x. x \<noteq> i) (map fst xs)"
  by (induction xs) auto

lemma length_filter_remove:
  "distinct (map fst xs) \<Longrightarrow> i \<in> fst ` set xs \<Longrightarrow> length (filter (\<lambda>e. fst e \<noteq> i) xs) + 1 = length xs"
proof (induction xs)
  case Nil then show ?case by simp
next
  case (Cons x xs)
  show ?case
  proof (cases "fst x = i")
    case True
    with Cons.prems have "i \<notin> fst ` set xs" by auto
    then have "filter (\<lambda>e. fst e \<noteq> i) xs = xs" by (auto simp: filter_id_conv)
    with True show ?thesis by simp
  next
    case False
    with Cons show ?thesis by auto
  qed
qed

lemma step_Immediate:
  assumes "sched_inv cfg s" "step cfg (Immediate rnd now) s = Some s'"
  shows "\<exists>i rest bd. immediates s = i # rest \<and>
           s' = s\<lparr>immediates := rest, activeTasks := activeTasks s + 1,
                  awaiting := awaiting s @ [(i, bd, now)]\<rparr>"
proof -
  from assms(2) obtain i rest where ir: "immediates s = i # rest"
    by (cases "immediates s") auto
  from assms(1) have "i < totalBatches cfg"
    unfolding sched_inv_def lanes_ok_def using ir by auto
  with assms(2) ir show ?thesis
    by (auto simp: processBatch_enter_def Let_def)
qed

lemma step_Settled:
  assumes "step cfg (Settled i db endT stamp now) s = Some s'"
  shows "\<exists>bd st. (i, bd, st) \<in> set (awaiting s) \<and>
           s' = processBatch_resume cfg db endT stamp now i bd st
                  (s\<lparr>awaiting := filter (\<lambda>e. fst e \<noteq> i) (awaiting s)\<rparr>)"
  using assms
  by (auto split: option.splits dest: find_fst_Some)

lemma sched_inv_step:
  assumes inv: "sched_inv cfg s" and st: "step cfg ev s = Some s'"
  shows "sched_inv cfg s'"
proof (cases ev)
  case (Immediate rnd now)
  with inv st obtain i rest bd where ir: "immediates s = i # rest"
    and s': "s' = s\<lparr>immediates := rest, activeTasks := activeTasks s + 1,
                  awaiting := awaiting s @ [(i, bd, now)]\<rparr>"
    using step_Immediate by blast
  from inv ir show ?thesis
    unfolding sched_inv_def s' by (simp add: attempted_def inflight_def)
next
  case (Settled i db endT stamp now)
  with st obtain bd st0 where mem: "(i, bd, st0) \<in> set (awaiting s)"
    and s': "s' = processBatch_resume cfg db endT stamp now i bd st0
                  (s\<lparr>awaiting := filter (\<lambda>e. fst e \<noteq> i) (awaiting s)\<rparr>)"
    using step_Settled by blast
  let ?T = "totalBatches cfg" and ?C = "concurrency cfg"
  let ?s0 = "s\<lparr>awaiting := filter (\<lambda>e. fst e \<noteq> i) (awaiting s)\<rparr>"
  let ?r = "executeBatch db cfg bd i st0 endT stamp"
  from inv have ok: "lanes_ok ?T ?C (attempted s) (inflight s @ immediates s)"
    and act: "activeTasks s = int (length (awaiting s))"
    and com: "completedBatches s = length (filter success (results s))"
    unfolding sched_inv_def by auto
  from mem have iin: "i \<in> set (inflight s)" by (force simp: inflight_def)
  have att: "attempted s' = attempted s @ [i]"
    unfolding s' by (simp add: attempted_def resume_fields)
  have inf: "inflight s' = filter (\<lambda>x. x \<noteq> i) (inflight s)"
    unfolding s' by (simp add: inflight_def resume_fields map_fst_filter)
  have "distinct (map fst (awaiting s))" using ok unfolding lanes_ok_def inflight_def by auto
  moreover have "i \<in> fst ` set (awaiting s)" using mem by force
  ultimately have len: "length (filter (\<lambda>e. fst e \<noteq> i) (awaiting s)) + 1 = length (awaiting s)"
    by (rule length_filter_remove)
  have a': "activeTasks s' = int (length (awaiting s'))"
    unfolding s' using act len by (simp add: resume_fields)
  have c': "completedBatches s' = length (filter success (results s'))"
    unfolding s' using com by (simp add: resume_fields)
  have "lanes_ok ?T ?C (attempted s') (inflight s' @ immediates s')"
  proof (cases "\<not> finishing cfg ?s0 ?r \<and> i + ?C < ?T")
    case True
    then have "immediates s' = immediates s @ [i + ?C]" unfolding s' by (simp add: resume_fields)
    with lanes_ok_settle_next [OF ok iin] True att inf show ?thesis by simp
  next
    case False
    then have "immediates s' = immediates s" unfolding s' by (auto simp add: resume_fields)
    with lanes_ok_settle_stop [OF ok iin] att inf show ?thesis by simp
  qed
  with a' c' show ?thesis unfolding sched_inv_def by simp
qed

lemma sched_inv_init: "sched_inv cfg (runConcurrentWrites cfg tr now)"
  unfolding sched_inv_def runConcurrentWrites_def
  by (simp add: attempted_def inflight_def lanes_ok_init)

lemma sched_inv_exec:
  "sched_inv cfg s \<Longrightarrow> exec cfg evs s = Some s' \<Longrightarrow> sched_inv cfg s'"
proof (induction evs arbitrary: s)
  case Nil then show ?case by simp
next
  case (Cons e es)
  then show ?case by (auto split: option.splits dest: sched_inv_step)
qed


lemma js_le_trans: "js_le a b \<Longrightarrow> js_le b c \<Longrightarrow> js_le a c"
  by (cases a; cases b; cases c) auto

lemma js_min_le_left: "x \<noteq> NaN \<Longrightarrow> js_le (js_min x l) x"
  by (cases x) (auto simp: js_min_def)

lemma js_min_le_right: "x \<noteq> NaN \<Longrightarrow> js_le (js_min x l) (Finite (of_int l))"
  by (cases x) (auto simp: js_min_def)

lemma js_le_not_NaN: "js_le a b \<Longrightarrow> a \<noteq> NaN"
  by (cases a; cases b) auto

lemma accum_inv_init: "accum_inv r0 (runConcurrentWrites cfg r0 now)"
  unfolding accum_inv_def runConcurrentWrites_def
  by (cases "w_minLatency r0") auto

lemma accum_inv_tally:
  assumes "w_errors tr = w_errors r0 + length (filter (\<lambda>r. \<not> success r) rs)"
    and "w_totalRecords tr = w_totalRecords r0 + sum_list (map recordCount (filter success rs))"
    and "w_maxLatency r0 \<le> w_maxLatency tr"
    and "\<forall>r \<in> set rs. latency r \<le> w_maxLatency tr"
    and "w_minLatency r0 \<noteq> NaN \<longrightarrow>
           js_le (w_minLatency tr) (w_minLatency r0) \<and>
           (\<forall>r \<in> set rs. js_le (w_minLatency tr) (Finite (of_int (latency r))))"
  shows "w_errors (tally tr x) = w_errors r0 + length (filter (\<lambda>r. \<not> success r) (rs @ [x]))"
    and "w_totalRecords (tally tr x) = w_totalRecords r0 + sum_list (map recordCount (filter success (rs @ [x])))"
    and "w_maxLatency r0 \<le> w_maxLatency (tally tr x)"
    and "\<forall>r \<in> set (rs @ [x]). latency r \<le> w_maxLatency (tally tr x)"
    and "w_minLatency r0 \<noteq> NaN \<longrightarrow>
           js_le (w_minLatency (tally tr x)) (w_minLatency r0) \<and>
           (\<forall>r \<in> set (rs @ [x]). js_le (w_minLatency (tally tr x)) (Finite (of_int (latency r))))"
proof -
  show "w_errors (tally tr x) = w_errors r0 + length (filter (\<lambda>r. \<not> success r) (rs @ [x]))"
    using assms(1) by simp
  show "w_totalRecords (tally tr x) = w_totalRecords r0 + sum_list (map recordCount (filter success (rs @ [x])))"
    using assms(2) by simp
  show "w_maxLatency r0 \<le> w_maxLatency (tally tr x)" using assms(3) by simp
  show "\<forall>r \<in> set (rs @ [x]). latency r \<le> w_maxLatency (tally tr x)" using assms(4) by auto
  show "w_minLatency r0 \<noteq> NaN \<longrightarrow>
           js_le (w_minLatency (tally tr x)) (w_minLatency r0) \<and>
           (\<forall>r \<in> set (rs @ [x]). js_le (w_minLatency (tally tr x)) (Finite (of_int (latency r))))"
  proof
    assume n: "w_minLatency r0 \<noteq> NaN"
    with assms(5) have a: "js_le (w_minLatency tr) (w_minLatency r0)"
      and b: "\<forall>r \<in> set rs. js_le (w_minLatency tr) (Finite (of_int (latency r)))" by auto
    from a have nn: "w_minLatency tr \<noteq> NaN" by (rule js_le_not_NaN)
    have l: "js_le (js_min (w_minLatency tr) (latency x)) (w_minLatency tr)"
      using nn by (rule js_min_le_left)
    have r: "js_le (js_min (w_minLatency tr) (latency x)) (Finite (of_int (latency x)))"
      using nn by (rule js_min_le_right)
    show "js_le (w_minLatency (tally tr x)) (w_minLatency r0) \<and>
           (\<forall>r \<in> set (rs @ [x]). js_le (w_minLatency (tally tr x)) (Finite (of_int (latency r))))"
      using a b l r by (auto intro: js_le_trans)
  qed
qed

lemma accum_inv_step:
  assumes inv: "accum_inv r0 s" and st: "step cfg ev s = Some s'"
  shows "accum_inv r0 s'"
proof (cases ev)
  case (Immediate rnd now)
  with st obtain i rest where "immediates s = i # rest"
    and "s' = processBatch_enter cfg rnd now i (s\<lparr>immediates := rest\<rparr>)"
    by (cases "immediates s") auto
  then have "results s' = results s" "this_results s' = this_results s"
    by (auto simp: processBatch_enter_def Let_def)
  with inv show ?thesis unfolding accum_inv_def by simp
next
  case (Settled i db endT stamp now)
  with st obtain bd st0 where
    s': "s' = processBatch_resume cfg db endT stamp now i bd st0
                  (s\<lparr>awaiting := filter (\<lambda>e. fst e \<noteq> i) (awaiting s)\<rparr>)"
    using step_Settled by blast
  let ?r = "executeBatch db cfg bd i st0 endT stamp"
  have rs: "results s' = results s @ [?r]" unfolding s' by (simp add: resume_fields)
  have f: "w_errors (this_results s') = w_errors (tally (this_results s) ?r)"
    "w_totalRecords (this_results s') = w_totalRecords (tally (this_results s) ?r)"
    "w_maxLatency (this_results s') = w_maxLatency (tally (this_results s) ?r)"
    "w_minLatency (this_results s') = w_minLatency (tally (this_results s) ?r)"
    unfolding s' by (simp_all add: resume_fields del: tally_fields)
  from inv show ?thesis
    unfolding accum_inv_def rs f
    by (intro conjI accum_inv_tally) blast+
qed


subsection \<open>The write run: counting events\<close>

lemma step_count:
  assumes inv: "sched_inv cfg s" and st: "step cfg ev s = Some s'"
  shows "2 * length (results s') + length (awaiting s') = 2 * length (results s) + length (awaiting s) + 1"
proof (cases ev)
  case (Immediate rnd now)
  with inv st obtain i rest bd where
    "s' = s\<lparr>immediates := rest, activeTasks := activeTasks s + 1,
                  awaiting := awaiting s @ [(i, bd, now)]\<rparr>"
    using step_Immediate by blast
  then show ?thesis by simp
next
  case (Settled i db endT stamp now)
  with st obtain bd st0 where mem: "(i, bd, st0) \<in> set (awaiting s)"
    and s': "s' = processBatch_resume cfg db endT stamp now i bd st0
                  (s\<lparr>awaiting := filter (\<lambda>e. fst e \<noteq> i) (awaiting s)\<rparr>)"
    using step_Settled by blast
  have "distinct (map fst (awaiting s))"
    using inv unfolding sched_inv_def lanes_ok_def inflight_def by auto
  moreover have "i \<in> fst ` set (awaiting s)" using mem by force
  ultimately have "length (filter (\<lambda>e. fst e \<noteq> i) (awaiting s)) + 1 = length (awaiting s)"
    by (rule length_filter_remove)
  then show ?thesis unfolding s' by (simp add: resume_fields)
qed

lemma exec_count:
  "sched_inv cfg s \<Longrightarrow> exec cfg evs s = Some s' \<Longrightarrow>
     2 * length (results s') + length (awaiting s') = 2 * length (results s) + length (awaiting s) + length evs"
proof (induction evs arbitrary: s)
  case Nil then show ?case by simp
next
  case (Cons e es)
  from Cons.prems obtain s1 where s1: "step cfg e s = Some s1" "exec cfg es s1 = Some s'"
    by (auto split: option.splits)
  from Cons.prems(1) s1(1) have "sched_inv cfg s1" by (rule sched_inv_step)
  from Cons.IH [OF this s1(2)] step_count [OF Cons.prems(1) s1(1)] show ?case by simp
qed

lemma sched_inv_size:
  assumes "sched_inv cfg s"
  shows "int (length (results s)) + int (length (awaiting s)) \<le> max 0 (totalBatches cfg)"
proof -
  let ?xs = "attempted s @ inflight s"
  have "distinct ?xs" "\<forall>i \<in> set ?xs. 0 \<le> i \<and> i < totalBatches cfg"
    using assms unfolding sched_inv_def lanes_ok_def by auto
  then have "int (length ?xs) \<le> max 0 (totalBatches cfg)" by (rule distinct_range_length)
  then show ?thesis by (simp add: attempted_def inflight_def)
qed


lemma fresh_inv_init:
  assumes "1 \<le> totalBatches cfg" "1 \<le> concurrency cfg"
  shows "fresh_inv cfg (runConcurrentWrites cfg WriteTest_results now)"
  unfolding fresh_inv_def
proof (intro conjI)
  show "sched_inv cfg (runConcurrentWrites cfg WriteTest_results now)" by (rule sched_inv_init)
  show "accum_inv WriteTest_results (runConcurrentWrites cfg WriteTest_results now)"
    by (rule accum_inv_init)
  show "lanes_live (totalBatches cfg) (concurrency cfg)
          (attempted (runConcurrentWrites cfg WriteTest_results now))
          (inflight (runConcurrentWrites cfg WriteTest_results now)
             @ immediates (runConcurrentWrites cfg WriteTest_results now))"
    using lanes_live_init [OF assms(2)]
    by (simp add: runConcurrentWrites_def attempted_def inflight_def)
  show "if int (length (results (runConcurrentWrites cfg WriteTest_results now))) < totalBatches cfg
      then promise (runConcurrentWrites cfg WriteTest_results now) = Pending \<and>
           w_avgLatency (this_results (runConcurrentWrites cfg WriteTest_results now)) = Finite 0
      else promise (runConcurrentWrites cfg WriteTest_results now) =
             Resolved (this_results (runConcurrentWrites cfg WriteTest_results now)) \<and>
           w_batches (this_results (runConcurrentWrites cfg WriteTest_results now)) =
             results (runConcurrentWrites cfg WriteTest_results now) \<and>
           completion_form (this_results (runConcurrentWrites cfg WriteTest_results now)) \<and>
           (filter success (results (runConcurrentWrites cfg WriteTest_results now)) = [] \<longrightarrow>
              w_avgLatency (this_results (runConcurrentWrites cfg WriteTest_results now)) = Finite 0)"
    using assms(1) by (simp add: runConcurrentWrites_def WriteTest_results_def)
qed

lemma step_needs_work:
  assumes "immediates s = []" "awaiting s = []"
  shows "step cfg ev s = None"
  using assms by (cases ev) auto

lemma fresh_inv_step:
  assumes inv: "fresh_inv cfg s" and C1: "1 \<le> concurrency cfg"
    and st: "step cfg ev s = Some s'"
  shows "fresh_inv cfg s'"
proof -
  let ?T = "totalBatches cfg" and ?C = "concurrency cfg"
  from inv have si: "sched_inv cfg s" and ai: "accum_inv WriteTest_results s"
    and ll: "lanes_live ?T ?C (attempted s) (inflight s @ immediates s)"
    unfolding fresh_inv_def by auto
  from si have ok: "lanes_ok ?T ?C (attempted s) (inflight s @ immediates s)"
    unfolding sched_inv_def by simp
  have si': "sched_inv cfg s'" using si st by (rule sched_inv_step)
  have ai': "accum_inv WriteTest_results s'" using ai st by (rule accum_inv_step)
  have short: "int (length (results s)) < ?T"
  proof (rule ccontr)
    assume "\<not> int (length (results s)) < ?T"
    then have "?T \<le> int (length (attempted s))" by (simp add: attempted_def)
    with ok have "inflight s @ immediates s = []" using lanes_ok_full by blast
    then have "immediates s = []" "awaiting s = []" by (auto simp: inflight_def)
    then have "step cfg ev s = None" by (rule step_needs_work)
    with st show False by simp
  qed
  with inv have pend: "promise s = Pending" and avg: "w_avgLatency (this_results s) = Finite 0"
    unfolding fresh_inv_def by auto
  show ?thesis
  proof (cases ev)
    case (Immediate rnd now)
    with si st obtain i rest bd where ir: "immediates s = i # rest"
      and s': "s' = s\<lparr>immediates := rest, activeTasks := activeTasks s + 1,
                    awaiting := awaiting s @ [(i, bd, now)]\<rparr>"
      using step_Immediate by blast
    have "lanes_live ?T ?C (attempted s') (inflight s' @ immediates s')"
      using ll ir unfolding s' by (simp add: attempted_def inflight_def)
    with si' ai' short pend avg show ?thesis
      unfolding fresh_inv_def s' by simp
  next
    case (Settled i db endT stamp now)
    with st obtain bd st0 where mem: "(i, bd, st0) \<in> set (awaiting s)"
      and s': "s' = processBatch_resume cfg db endT stamp now i bd st0
                    (s\<lparr>awaiting := filter (\<lambda>e. fst e \<noteq> i) (awaiting s)\<rparr>)"
      using step_Settled by blast
    let ?s0 = "s\<lparr>awaiting := filter (\<lambda>e. fst e \<noteq> i) (awaiting s)\<rparr>"
    let ?r = "executeBatch db cfg bd i st0 endT stamp"
    from mem have iin: "i \<in> set (inflight s)" by (force simp: inflight_def)
    have rs: "results s' = results s @ [?r]" unfolding s' by (simp add: resume_fields)
    have att: "attempted s' = attempted s @ [i]"
      unfolding s' by (simp add: attempted_def resume_fields)
    have inf: "inflight s' = filter (\<lambda>x. x \<noteq> i) (inflight s)"
      unfolding s' by (simp add: inflight_def resume_fields map_fst_filter)
    have dl: "distinct (inflight s @ immediates s)" using ok unfolding lanes_ok_def by auto
    from si have com: "completedBatches s = length (filter success (results s))"
      unfolding sched_inv_def by simp
    from ai have err: "w_errors (this_results s) = length (filter (\<lambda>r. \<not> success r) (results s))"
      unfolding accum_inv_def by (simp add: WriteTest_results_def)
    have split: "length (filter success (results s)) + length (filter (\<lambda>r. \<not> success r) (results s))
                 = length (results s)"
      by (rule sum_length_filter_compl)
    have cnt: "int (if success ?r then completedBatches s + 1 else completedBatches s)
                 + int (w_errors (tally (this_results s) ?r)) = int (length (results s)) + 1"
      using com err split by auto
    from si' have ok': "lanes_ok ?T ?C (attempted s') (inflight s' @ immediates s')"
      and act': "activeTasks s' = int (length (awaiting s'))"
      unfolding sched_inv_def by auto
    show ?thesis
    proof (cases "?T \<le> int (length (results s)) + 1")
      case True
      then have "?T \<le> int (length (attempted s'))" using rs by (simp add: attempted_def)
      with ok' have full: "set (attempted s') = {0 ..< ?T}" and emp: "inflight s' @ immediates s' = []"
        using lanes_ok_full by blast+
      from emp have "awaiting s' = []" by (simp add: inflight_def)
      with act' have "activeTasks s' = 0" by simp
      then have "activeTasks ?s0 - 1 = 0" unfolding s' by (simp add: resume_fields)
      with True cnt have fin: "finishing cfg ?s0 ?r"
        unfolding finishing_def by (auto split: if_splits)
      have tr': "this_results s' = finish (tally (this_results s) ?r) (results s @ [?r]) (startTime s) now"
        unfolding s' using fin by (simp add: resume_fields)
      have pr': "promise s' = Resolved (this_results s')"
        unfolding tr' unfolding s' using fin pend by (simp add: resume_fields resolve_def)
      have "lanes_live ?T ?C (attempted s') (inflight s' @ immediates s')"
        using full by (rule lanes_live_full)
      moreover have "\<not> int (length (results s')) < ?T" using True rs by simp
      moreover have "w_batches (this_results s') = results s'" unfolding tr' rs by simp
      moreover have "completion_form (this_results s')" unfolding tr' by (rule completion_form_finish)
      moreover have "filter success (results s') = [] \<longrightarrow> w_avgLatency (this_results s') = Finite 0"
        unfolding tr' rs using avg by simp
      ultimately show ?thesis using si' ai' pr' unfolding fresh_inv_def by simp
    next
      case False
      with cnt have nf: "\<not> finishing cfg ?s0 ?r"
        unfolding finishing_def by (auto split: if_splits)
      have tr': "this_results s' = tally (this_results s) ?r"
        unfolding s' using nf by (simp add: resume_fields)
      have pr': "promise s' = Pending" unfolding s' using nf pend by (simp add: resume_fields)
      have "lanes_live ?T ?C (attempted s') (inflight s' @ immediates s')"
      proof (cases "i + ?C < ?T")
        case True
        then have "immediates s' = immediates s @ [i + ?C]"
          unfolding s' using nf by (simp add: resume_fields)
        with lanes_live_settle_next [OF ll dl iin True C1] att inf show ?thesis by simp
      next
        case False
        then have "immediates s' = immediates s"
          unfolding s' using nf by (simp add: resume_fields)
        with lanes_live_settle_stop [OF ll dl iin False C1] att inf show ?thesis by simp
      qed
      moreover have "int (length (results s')) < ?T" using False rs by simp
      moreover have "w_avgLatency (this_results s') = Finite 0" unfolding tr' using avg by simp
      ultimately show ?thesis using si' ai' pr' unfolding fresh_inv_def by simp
    qed
  qed
qed

lemma fresh_inv_exec:
  "fresh_inv cfg s \<Longrightarrow> 1 \<le> concurrency cfg \<Longrightarrow> exec cfg evs s = Some s' \<Longrightarrow> fresh_inv cfg s'"
proof (induction evs arbitrary: s)
  case Nil then show ?case by simp
next
  case (Cons e es)
  then show ?case by (auto split: option.splits dest: fresh_inv_step)
qed

lemma fresh_idle_complete:
  assumes "fresh_inv cfg s" "idle s"
  shows "\<not> int (length (results s)) < totalBatches cfg"
proof
  assume short: "int (length (results s)) < totalBatches cfg"
  let ?T = "totalBatches cfg"
  from assms(1) have ok: "lanes_ok ?T (concurrency cfg) (attempted s) (inflight s @ immediates s)"
    and ll: "lanes_live ?T (concurrency cfg) (attempted s) (inflight s @ immediates s)"
    unfolding fresh_inv_def sched_inv_def by auto
  from assms(2) have emp: "inflight s @ immediates s = []" by (simp add: idle_def inflight_def)
  have "\<exists>j. 0 \<le> j \<and> j < ?T \<and> j \<notin> set (attempted s)"
  proof (rule ccontr)
    assume "\<not> (\<exists>j. 0 \<le> j \<and> j < ?T \<and> j \<notin> set (attempted s))"
    then have "{0 ..< ?T} \<subseteq> set (attempted s)" by auto
    then have "card {0 ..< ?T} \<le> card (set (attempted s))" by (intro card_mono) auto
    also have "\<dots> \<le> length (attempted s)" by (rule card_length)
    finally have "nat ?T \<le> length (results s)" by (simp add: attempted_def)
    with short show False by linarith
  qed
  then obtain j where "0 \<le> j" "j < ?T" "j \<notin> set (attempted s)" by blast
  with ll emp show False unfolding lanes_live_def by auto
qed

subsection \<open>The write run: the settled promise\<close>

lemma resolved_inv_init: "resolved_inv r0 (runConcurrentWrites cfg r0 now)"
  by (simp add: resolved_inv_def runConcurrentWrites_def)

lemma resolved_inv_step:
  assumes ri: "resolved_inv r0 s" and ai: "accum_inv r0 s" and st: "step cfg ev s = Some s'"
  shows "resolved_inv r0 s'"
proof (cases ev)
  case (Immediate rnd now)
  with st obtain i rest where "immediates s = i # rest"
    and "s' = processBatch_enter cfg rnd now i (s\<lparr>immediates := rest\<rparr>)"
    by (cases "immediates s") auto
  then have "promise s' = promise s" by (auto simp: processBatch_enter_def Let_def)
  with ri show ?thesis unfolding resolved_inv_def by simp
next
  case (Settled i db endT stamp now)
  with st obtain bd st0 where
    s': "s' = processBatch_resume cfg db endT stamp now i bd st0
                  (s\<lparr>awaiting := filter (\<lambda>e. fst e \<noteq> i) (awaiting s)\<rparr>)"
    using step_Settled by blast
  let ?s0 = "s\<lparr>awaiting := filter (\<lambda>e. fst e \<noteq> i) (awaiting s)\<rparr>"
  let ?r = "executeBatch db cfg bd i st0 endT stamp"
  have ai': "accum_inv r0 s'" using ai st by (rule accum_inv_step)
  show ?thesis
  proof (cases "finishing cfg ?s0 ?r \<and> promise s = Pending")
    case True
    then have tr': "this_results s' = finish (tally (this_results s) ?r) (results s @ [?r]) (startTime s) now"
      and pr': "promise s' = Resolved (this_results s')"
      unfolding s' by (simp_all add: resume_fields resolve_def)
    have "completion_form (this_results s')" unfolding tr' by (rule completion_form_finish)
    moreover have "w_errors r0 \<le> w_errors (this_results s')"
      "w_totalRecords r0 \<le> w_totalRecords (this_results s')"
      "w_maxLatency r0 \<le> w_maxLatency (this_results s')"
      "w_minLatency r0 \<noteq> NaN \<longrightarrow> js_le (w_minLatency (this_results s')) (w_minLatency r0)"
      using ai' unfolding accum_inv_def by auto
    ultimately show ?thesis unfolding resolved_inv_def pr' by simp
  next
    case False
    then have "promise s' = promise s"
      unfolding s' by (auto simp: resume_fields resolve_def split: promise.splits)
    with ri show ?thesis unfolding resolved_inv_def by simp
  qed
qed

lemma resolved_inv_exec:
  "resolved_inv r0 s \<Longrightarrow> accum_inv r0 s \<Longrightarrow> exec cfg evs s = Some s' \<Longrightarrow> resolved_inv r0 s'"
proof (induction evs arbitrary: s)
  case Nil then show ?case by simp
next
  case (Cons e es)
  from Cons.prems obtain s1 where s1: "step cfg e s = Some s1" "exec cfg es s1 = Some s'"
    by (auto split: option.splits)
  have "resolved_inv r0 s1" using Cons.prems(1,2) s1(1) by (rule resolved_inv_step)
  moreover have "accum_inv r0 s1" using Cons.prems(2) s1(1) by (rule accum_inv_step)
  ultimately show ?case using s1(2) by (rule Cons.IH)
qed

lemma exec_no_work:
  assumes "immediates s = []" "awaiting s = []" "exec cfg evs s = Some s'"
  shows "evs = [] \<and> s' = s"
proof (cases evs)
  case Nil with assms(3) show ?thesis by simp
next
  case (Cons e es)
  with assms(3) step_needs_work [OF assms(1,2), of cfg e] show ?thesis by simp
qed

lemma step_enabled:
  assumes "\<not> idle s"
  shows "\<exists>ev s'. step cfg ev s = Some s'"
proof (cases "immediates s")
  case (Cons i rest)
  then have "step cfg (Immediate rnd now) s
               = Some (processBatch_enter cfg rnd now i (s\<lparr>immediates := rest\<rparr>))" by simp
  then show ?thesis by blast
next
  case Nil
  with assms obtain i bd st rest where aw: "awaiting s = (i, bd, st) # rest"
    unfolding idle_def by (cases "awaiting s") auto
  then have "step cfg (Settled i db endT stamp now) s
               = Some (processBatch_resume cfg db endT stamp now i bd st
                        (s\<lparr>awaiting := filter (\<lambda>e. fst e \<noteq> i) (awaiting s)\<rparr>))" by simp
  then show ?thesis by blast
qed

lemma sched_inv_run:
  assumes "exec cfg evs (runConcurrentWrites cfg r0 t0) = Some s"
  shows "sched_inv cfg s"
  using sched_inv_init assms by (rule sched_inv_exec)

lemma fresh_inv_run:
  assumes "1 \<le> totalBatches cfg" "1 \<le> concurrency cfg"
    and "exec cfg evs (runConcurrentWrites cfg WriteTest_results t0) = Some s"
  shows "fresh_inv cfg s"
  using fresh_inv_init [OF assms(1,2)] assms(2,3) by (rule fresh_inv_exec)

lemma fresh_complete:
  assumes fi: "fresh_inv cfg s" and T1: "1 \<le> totalBatches cfg"
    and full: "\<not> int (length (results s)) < totalBatches cfg"
  shows "promise s = Resolved (this_results s)"
    and "w_batches (this_results s) = results s"
    and "completion_form (this_results s)"
    and "filter success (results s) = [] \<longrightarrow> w_avgLatency (this_results s) = Finite 0"
    and "distinct (attempted s)"
    and "set (attempted s) = {0 ..< totalBatches cfg}"
    and "int (length (results s)) = totalBatches cfg"
    and "int (length (filter success (results s))) + int (w_errors (this_results s)) = totalBatches cfg"
    and "idle s"
proof -
  let ?T = "totalBatches cfg"
  from fi full show "promise s = Resolved (this_results s)"
    and "w_batches (this_results s) = results s"
    and "completion_form (this_results s)"
    and "filter success (results s) = [] \<longrightarrow> w_avgLatency (this_results s) = Finite 0"
    unfolding fresh_inv_def by auto
  from fi have ok: "lanes_ok ?T (concurrency cfg) (attempted s) (inflight s @ immediates s)"
    and ai: "accum_inv WriteTest_results s"
    unfolding fresh_inv_def sched_inv_def by auto
  from ok show d: "distinct (attempted s)" unfolding lanes_ok_def by auto
  from full have "?T \<le> int (length (attempted s))" by (simp add: attempted_def)
  with ok have f: "set (attempted s) = {0 ..< ?T}" and e: "inflight s @ immediates s = []"
    using lanes_ok_full by blast+
  from f show "set (attempted s) = {0 ..< ?T}" .
  from e show "idle s" by (simp add: idle_def inflight_def)
  have "length (attempted s) = card (set (attempted s))" using d by (simp add: distinct_card)
  with f have "length (attempted s) = nat ?T" by simp
  with T1 show len: "int (length (results s)) = ?T" by (simp add: attempted_def)
  from ai have "w_errors (this_results s) = length (filter (\<lambda>r. \<not> success r) (results s))"
    unfolding accum_inv_def by (simp add: WriteTest_results_def)
  moreover have "length (filter success (results s)) + length (filter (\<lambda>r. \<not> success r) (results s))
                 = length (results s)"
    by (rule sum_length_filter_compl)
  ultimately show "int (length (filter success (results s))) + int (w_errors (this_results s)) = ?T"
    using len by linarith
qed

lemma fresh_pending:
  assumes fi: "fresh_inv cfg s" and short: "int (length (results s)) < totalBatches cfg"
  shows "promise s = Pending" and "\<not> idle s"
proof -
  from fi short show "promise s = Pending" unfolding fresh_inv_def by auto
  show "\<not> idle s" using fresh_idle_complete [OF fi] short by blast
qed

lemma run_length:
  assumes "exec cfg evs (runConcurrentWrites cfg r0 t0) = Some s"
  shows "int (length evs) \<le> 2 * max 0 (totalBatches cfg)"
proof -
  have si: "sched_inv cfg s" using assms by (rule sched_inv_run)
  have "2 * length (results s) + length (awaiting s) = length evs"
    using exec_count [OF sched_inv_init assms] by (simp add: runConcurrentWrites_def)
  moreover have "int (length (results s)) + int (length (awaiting s)) \<le> max 0 (totalBatches cfg)"
    using si by (rule sched_inv_size)
  ultimately show ?thesis by linarith
qed

subsection \<open>The read run: fields after a step\<close>

lemma executeQuery_fields [simp]:
  "queryIndex (executeQuery db cfg uid i st e stamp) = i"
  "userId (executeQuery db cfg uid i st e stamp) = uid"
  "q_latency (executeQuery db cfg uid i st e stamp) = e - st"
  "q_timestamp (executeQuery db cfg uid i st e stamp) = stamp"
  by (simp_all add: executeQuery_def split: awaited.splits)

lemma read_tally_fields [simp]:
  "r_errors (read_tally tr r) = (if q_success r then r_errors tr else r_errors tr + 1)"
  "r_totalRecordsRead (read_tally tr r) =
     (if q_success r then r_totalRecordsRead tr + q_recordCount r else r_totalRecordsRead tr)"
  "r_maxLatency (read_tally tr r) = max (r_maxLatency tr) (q_latency r)"
  "r_minLatency (read_tally tr r) = js_min (r_minLatency tr) (q_latency r)"
  "r_avgLatency (read_tally tr r) = r_avgLatency tr"
  "r_qps (read_tally tr r) = r_qps tr"
  "r_queries (read_tally tr r) = r_queries tr"
  "r_totalTime (read_tally tr r) = r_totalTime tr"
  "r_totalQueries (read_tally tr r) = r_totalQueries tr"
  "r_avgRecordsPerQuery (read_tally tr r) = r_avgRecordsPerQuery tr"
  by (simp_all add: read_tally_def Let_def)

lemma read_finish_fields [simp]:
  "r_errors (read_finish tr rs c a b) = r_errors tr"
  "r_totalRecordsRead (read_finish tr rs c a b) = r_totalRecordsRead tr"
  "r_maxLatency (read_finish tr rs c a b) = r_maxLatency tr"
  "r_minLatency (read_finish tr rs c a b) = r_minLatency tr"
  "r_queries (read_finish tr rs c a b) = rs"
  "r_totalTime (read_finish tr rs c a b) = b - a"
  "r_totalQueries (read_finish tr rs c a b) = c"
  "r_qps (read_finish tr rs c a b) = js_times (js_div (int c) (b - a)) 1000"
  "r_avgLatency (read_finish tr rs c a b) =
     (if filter q_success rs = [] then r_avgLatency tr
      else js_div (sum_list (map q_latency (filter q_success rs))) (int (length (filter q_success rs))))"
  "r_avgRecordsPerQuery (read_finish tr rs c a b) =
     (if filter q_success rs = [] then r_avgRecordsPerQuery tr
      else js_div (int (r_totalRecordsRead tr)) (int (length (filter q_success rs))))"
  by (simp_all add: read_finish_def Let_def)

lemma read_completion_form_finish:
  "c = length (filter q_success rs) \<Longrightarrow> read_completion_form (read_finish tr rs c a b)"
  by (simp add: read_completion_form_def)


lemma read_resume_fields:
  fixes s cfg db endT stamp now i uid st
  defines "r \<equiv> executeQuery db cfg uid i st endT stamp"
  defines "s' \<equiv> processQuery_resume cfg db endT stamp now i uid st s"
  shows "rd_results s' = rd_results s @ [r]"
    and "rd_awaiting s' = rd_awaiting s"
    and "rd_activeTasks s' = rd_activeTasks s - 1"
    and "completedQueries s' = (if q_success r then completedQueries s + 1 else completedQueries s)"
    and "rd_startTime s' = rd_startTime s"
    and "rd_immediates s' =
          (if read_finishing cfg s r then rd_immediates s
           else if i + concurrency cfg < totalQueries cfg then rd_immediates s @ [i + concurrency cfg]
           else rd_immediates s)"
    and "rd_this_results s' =
          (if read_finishing cfg s r then read_finish (read_tally (rd_this_results s) r) (rd_results s @ [r])
                  (if q_success r then completedQueries s + 1 else completedQueries s) (rd_startTime s) now
           else read_tally (rd_this_results s) r)"
    and "rd_promise s' =
          (if read_finishing cfg s r
           then resolve (rd_promise s) (read_finish (read_tally (rd_this_results s) r) (rd_results s @ [r])
                  (if q_success r then completedQueries s + 1 else completedQueries s) (rd_startTime s) now)
           else rd_promise s)"
  unfolding r_def s'_def read_finishing_def
  by (simp_all add: processQuery_resume_def Let_def)


lemma read_step_Immediate:
  assumes "read_sched_inv cfg s" "read_step cfg (ReadImmediate uid0 now) s = Some s'"
  shows "\<exists>i rest uid. rd_immediates s = i # rest \<and>
           s' = s\<lparr>rd_immediates := rest, rd_activeTasks := rd_activeTasks s + 1,
                  rd_awaiting := rd_awaiting s @ [(i, uid, now)]\<rparr>"
proof -
  from assms(2) obtain i rest where ir: "rd_immediates s = i # rest"
    by (cases "rd_immediates s") auto
  from assms(1) have "i < totalQueries cfg"
    unfolding read_sched_inv_def lanes_ok_def using ir by auto
  with assms(2) ir show ?thesis
    by (auto simp: processQuery_enter_def Let_def)
qed

lemma read_step_Settled:
  assumes "read_step cfg (ReadSettled i db endT stamp now) s = Some s'"
  shows "\<exists>uid st. (i, uid, st) \<in> set (rd_awaiting s) \<and>
           s' = processQuery_resume cfg db endT stamp now i uid st
                  (s\<lparr>rd_awaiting := filter (\<lambda>e. fst e \<noteq> i) (rd_awaiting s)\<rparr>)"
  using assms
  by (auto split: option.splits dest: find_fst_Some)

lemma read_sched_inv_step:
  assumes inv: "read_sched_inv cfg s" and st: "read_step cfg ev s = Some s'"
  shows "read_sched_inv cfg s'"
proof (cases ev)
  case (ReadImmediate uid0 now)
  with inv st obtain i rest uid where ir: "rd_immediates s = i # rest"
    and s': "s' = s\<lparr>rd_immediates := rest, rd_activeTasks := rd_activeTasks s + 1,
                  rd_awaiting := rd_awaiting s @ [(i, uid, now)]\<rparr>"
    using read_step_Immediate by blast
  from inv ir show ?thesis
    unfolding read_sched_inv_def s' by (simp add: read_attempted_def read_inflight_def)
next
  case (ReadSettled i db endT stamp now)
  with st obtain uid st0 where mem: "(i, uid, st0) \<in> set (rd_awaiting s)"
    and s': "s' = processQuery_resume cfg db endT stamp now i uid st0
                  (s\<lparr>rd_awaiting := filter (\<lambda>e. fst e \<noteq> i) (rd_awaiting s)\<rparr>)"
    using read_step_Settled by blast
  let ?T = "totalQueries cfg" and ?C = "concurrency cfg"
  let ?s0 = "s\<lparr>rd_awaiting := filter (\<lambda>e. fst e \<noteq> i) (rd_awaiting s)\<rparr>"
  let ?r = "executeQuery db cfg uid i st0 endT stamp"
  from inv have ok: "lanes_ok ?T ?C (read_attempted s) (read_inflight s @ rd_immediates s)"
    and act: "rd_activeTasks s = int (length (rd_awaiting s))"
    and com: "completedQueries s = length (filter q_success (rd_results s))"
    unfolding read_sched_inv_def by auto
  from mem have iin: "i \<in> set (read_inflight s)" by (force simp: read_inflight_def)
  have att: "read_attempted s' = read_attempted s @ [i]"
    unfolding s' by (simp add: read_attempted_def read_resume_fields)
  have inf: "read_inflight s' = filter (\<lambda>x. x \<noteq> i) (read_inflight s)"
    unfolding s' by (simp add: read_inflight_def read_resume_fields map_fst_filter)
  have "distinct (map fst (rd_awaiting s))" using ok unfolding lanes_ok_def read_inflight_def by auto
  moreover have "i \<in> fst ` set (rd_awaiting s)" using mem by force
  ultimately have len: "length (filter (\<lambda>e. fst e \<noteq> i) (rd_awaiting s)) + 1 = length (rd_awaiting s)"
    by (rule length_filter_remove)
  have a': "rd_activeTasks s' = int (length (rd_awaiting s'))"
    unfolding s' using act len by (simp add: read_resume_fields)
  have c': "completedQueries s' = length (filter q_success (rd_results s'))"
    unfolding s' using com by (simp add: read_resume_fields)
  have "lanes_ok ?T ?C (read_attempted s') (read_inflight s' @ rd_immediates s')"
  proof (cases "\<not> read_finishing cfg ?s0 ?r \<and> i + ?C < ?T")
    case True
    then have "rd_immediates s' = rd_immediates s @ [i + ?C]" unfolding s' by (simp add: read_resume_fields)
    with lanes_ok_settle_next [OF ok iin] True att inf show ?thesis by simp
  next
    case False
    then have "rd_immediates s' = rd_immediates s" unfolding s' by (auto simp add: read_resume_fields)
    with lanes_ok_settle_stop [OF ok iin] att inf show ?thesis by simp
  qed
  with a' c' show ?thesis unfolding read_sched_inv_def by simp
qed

lemma read_sched_inv_init: "read_sched_inv cfg (runConcurrentReads cfg tr now)"
  unfolding read_sched_inv_def runConcurrentReads_def
  by (simp add: read_attempted_def read_inflight_def lanes_ok_init)

lemma read_sched_inv_exec:
  "read_sched_inv cfg s \<Longrightarrow> read_exec cfg evs s = Some s' \<Longrightarrow> read_sched_inv cfg s'"
proof (induction evs arbitrary: s)
  case Nil then show ?case by simp
next
  case (Cons e es)
  then show ?case by (auto split: option.splits dest: read_sched_inv_step)
qed


lemma read_accum_inv_init: "read_accum_inv r0 (runConcurrentReads cfg r0 now)"
  unfolding read_accum_inv_def runConcurrentReads_def
  by (cases "r_minLatency r0") auto

lemma read_accum_inv_tally:
  assumes "r_errors tr = r_errors r0 + length (filter (\<lambda>r. \<not> q_success r) rs)"
    and "r_totalRecordsRead tr = r_totalRecordsRead r0 + sum_list (map q_recordCount (filter q_success rs))"
    and "r_maxLatency r0 \<le> r_maxLatency tr"
    and "\<forall>r \<in> set rs. q_latency r \<le> r_maxLatency tr"
    and "r_minLatency r0 \<noteq> NaN \<longrightarrow>
           js_le (r_minLatency tr) (r_minLatency r0) \<and>
           (\<forall>r \<in> set rs. js_le (r_minLatency tr) (Finite (of_int (q_latency r))))"
  shows "r_errors (read_tally tr x) = r_errors r0 + length (filter (\<lambda>r. \<not> q_success r) (rs @ [x]))"
    and "r_totalRecordsRead (read_tally tr x) = r_totalRecordsRead r0 + sum_list (map q_recordCount (filter q_success (rs @ [x])))"
    and "r_maxLatency r0 \<le> r_maxLatency (read_tally tr x)"
    and "\<forall>r \<in> set (rs @ [x]). q_latency r \<le> r_maxLatency (read_tally tr x)"
    and "r_minLatency r0 \<noteq> NaN \<longrightarrow>
           js_le (r_minLatency (read_tally tr x)) (r_minLatency r0) \<and>
           (\<forall>r \<in> set (rs @ [x]). js_le (r_minLatency (read_tally tr x)) (Finite (of_int (q_latency r))))"
proof -
  show "r_errors (read_tally tr x) = r_errors r0 + length (filter (\<lambda>r. \<not> q_success r) (rs @ [x]))"
    using assms(1) by simp
  show "r_totalRecordsRead (read_tally tr x) = r_totalRecordsRead r0 + sum_list (map q_recordCount (filter q_success (rs @ [x])))"
    using assms(2) by simp
  show "r_maxLatency r0 \<le> r_maxLatency (read_tally tr x)" using assms(3) by simp
  show "\<forall>r \<in> set (rs @ [x]). q_latency r \<le> r_maxLatency (read_tally tr x)" using assms(4) by auto
  show "r_minLatency r0 \<noteq> NaN \<longrightarrow>
           js_le (r_minLatency (read_tally tr x)) (r_minLatency r0) \<and>
           (\<forall>r \<in> set (rs @ [x]). js_le (r_minLatency (read_tally tr x)) (Finite (of_int (q_latency r))))"
  proof
    assume n: "r_minLatency r0 \<noteq> NaN"
    with assms(5) have a: "js_le (r_minLatency tr) (r_minLatency r0)"
      and b: "\<forall>r \<in> set rs. js_le (r_minLatency tr) (Finite (of_int (q_latency r)))" by auto
    from a have nn: "r_minLatency tr \<noteq> NaN" by (rule js_le_not_NaN)
    have l: "js_le (js_min (r_minLatency tr) (q_latency x)) (r_minLatency tr)"
      using nn by (rule js_min_le_left)
    have r: "js_le (js_min (r_minLatency tr) (q_latency x)) (Finite (of_int (q_latency x)))"
      using nn by (rule js_min_le_right)
    show "js_le (r_minLatency (read_tally tr x)) (r_minLatency r0) \<and>
           (\<forall>r \<in> set (rs @ [x]). js_le (r_minLatency (read_tally tr x)) (Finite (of_int (q_latency r))))"
      using a b l r by (auto intro: js_le_trans)
  qed
qed

lemma read_accum_inv_step:
  assumes inv: "read_accum_inv r0 s" and st: "read_step cfg ev s = Some s'"
  shows "read_accum_inv r0 s'"
proof (cases ev)
  case (ReadImmediate uid0 now)
  with st obtain i rest where "rd_immediates s = i # rest"
    and "s' = processQuery_enter cfg uid0 now i (s\<lparr>rd_immediates := rest\<rparr>)"
    by (cases "rd_immediates s") auto
  then have "rd_results s' = rd_results s" "rd_this_results s' = rd_this_results s"
    by (auto simp: processQuery_enter_def Let_def)
  with inv show ?thesis unfolding read_accum_inv_def by simp
next
  case (ReadSettled i db endT stamp now)
  with st obtain uid st0 where
    s': "s' = processQuery_resume cfg db endT stamp now i uid st0
                  (s\<lparr>rd_awaiting := filter (\<lambda>e. fst e \<noteq> i) (rd_awaiting s)\<rparr>)"
    using read_step_Settled by blast
  let ?r = "executeQuery db cfg uid i st0 endT stamp"
  have rs: "rd_results s' = rd_results s @ [?r]" unfolding s' by (simp add: read_resume_fields)
  have f: "r_errors (rd_this_results s') = r_errors (read_tally (rd_this_results s) ?r)"
    "r_totalRecordsRead (rd_this_results s') = r_totalRecordsRead (read_tally (rd_this_results s) ?r)"
    "r_maxLatency (rd_this_results s') = r_maxLatency (read_tally (rd_this_results s) ?r)"
    "r_minLatency (rd_this_results s') = r_minLatency (read_tally (rd_this_results s) ?r)"
    unfolding s' by (simp_all add: read_resume_fields del: read_tally_fields)
  from inv show ?thesis
    unfolding read_accum_inv_def rs f
    by (intro conjI read_accum_inv_tally) blast+
qed


subsection \<open>The read run: counting events\<close>

lemma read_step_count:
  assumes inv: "read_sched_inv cfg s" and st: "read_step cfg ev s = Some s'"
  shows "2 * length (rd_results s') + length (rd_awaiting s') = 2 * length (rd_results s) + length (rd_awaiting s) + 1"
proof (cases ev)
  case (ReadImmediate uid0 now)
  with inv st obtain i rest uid where
    "s' = s\<lparr>rd_immediates := rest, rd_activeTasks := rd_activeTasks s + 1,
                  rd_awaiting := rd_awaiting s @ [(i, uid, now)]\<rparr>"
    using read_step_Immediate by blast
  then show ?thesis by simp
next
  case (ReadSettled i db endT stamp now)
  with st obtain uid st0 where mem: "(i, uid, st0) \<in> set (rd_awaiting s)"
    and s': "s' = processQuery_resume cfg db endT stamp now i uid st0
                  (s\<lparr>rd_awaiting := filter (\<lambda>e. fst e \<noteq> i) (rd_awaiting s)\<rparr>)"
    using read_step_Settled by blast
  have "distinct (map fst (rd_awaiting s))"
    using inv unfolding read_sched_inv_def lanes_ok_def read_inflight_def by auto
  moreover have "i \<in> fst ` set (rd_awaiting s)" using mem by force
  ultimately have "length (filter (\<lambda>e. fst e \<noteq> i) (rd_awaiting s)) + 1 = length (rd_awaiting s)"
    by (rule length_filter_remove)
  then show ?thesis unfolding s' by (simp add: read_resume_fields)
qed

lemma read_exec_count:
  "read_sched_inv cfg s \<Longrightarrow> read_exec cfg evs s = Some s' \<Longrightarrow>
     2 * length (rd_results s') + length (rd_awaiting s') = 2 * length (rd_results s) + length (rd_awaiting s) + length evs"
proof (induction evs arbitrary: s)
  case Nil then show ?case by simp
next
  case (Cons e es)
  from Cons.prems obtain s1 where s1: "read_step cfg e s = Some s1" "read_exec cfg es s1 = Some s'"
    by (auto split: option.splits)
  from Cons.prems(1) s1(1) have "read_sched_inv cfg s1" by (rule read_sched_inv_step)
  from Cons.IH [OF this s1(2)] read_step_count [OF Cons.prems(1) s1(1)] show ?case by simp
qed

lemma read_sched_inv_size:
  assumes "read_sched_inv cfg s"
  shows "int (length (rd_results s)) + int (length (rd_awaiting s)) \<le> max 0 (totalQueries cfg)"
proof -
  let ?xs = "read_attempted s @ read_inflight s"
  have "distinct ?xs" "\<forall>i \<in> set ?xs. 0 \<le> i \<and> i < totalQueries cfg"
    using assms unfolding read_sched_inv_def lanes_ok_def by auto
  then have "int (length ?xs) \<le> max 0 (totalQueries cfg)" by (rule distinct_range_length)
  then show ?thesis by (simp add: read_attempted_def read_inflight_def)
qed


lemma read_fresh_inv_init:
  assumes "1 \<le> totalQueries cfg" "1 \<le> concurrency cfg"
  shows "read_fresh_inv cfg (runConcurrentReads cfg ReadTest_results now)"
  unfolding read_fresh_inv_def
proof (intro conjI)
  show "read_sched_inv cfg (runConcurrentReads cfg ReadTest_results now)" by (rule read_sched_inv_init)
  show "read_accum_inv ReadTest_results (runConcurrentReads cfg ReadTest_results now)"
    by (rule read_accum_inv_init)
  show "lanes_live (totalQueries cfg) (concurrency cfg)
          (read_attempted (runConcurrentReads cfg ReadTest_results now))
          (read_inflight (runConcurrentReads cfg ReadTest_results now)
             @ rd_immediates (runConcurrentReads cfg ReadTest_results now))"
    using lanes_live_init [OF assms(2)]
    by (simp add: runConcurrentReads_def read_attempted_def read_inflight_def)
  show "if int (length (rd_results (runConcurrentReads cfg ReadTest_results now))) < totalQueries cfg
      then rd_promise (runConcurrentReads cfg ReadTest_results now) = Pending \<and>
           r_avgLatency (rd_this_results (runConcurrentReads cfg ReadTest_results now)) = Finite 0
      else rd_promise (runConcurrentReads cfg ReadTest_results now) =
             Resolved (rd_this_results (runConcurrentReads cfg ReadTest_results now)) \<and>
           r_queries (rd_this_results (runConcurrentReads cfg ReadTest_results now)) =
             rd_results (runConcurrentReads cfg ReadTest_results now) \<and>
           read_completion_form (rd_this_results (runConcurrentReads cfg ReadTest_results now)) \<and>
           (filter q_success (rd_results (runConcurrentReads cfg ReadTest_results now)) = [] \<longrightarrow>
              r_avgLatency (rd_this_results (runConcurrentReads cfg ReadTest_results now)) = Finite 0)"
    using assms(1) by (simp add: runConcurrentReads_def ReadTest_results_def)
qed

lemma read_step_needs_work:
  assumes "rd_immediates s = []" "rd_awaiting s = []"
  shows "read_step cfg ev s = None"
  using assms by (cases ev) auto

lemma read_fresh_inv_step:
  assumes inv: "read_fresh_inv cfg s" and C1: "1 \<le> concurrency cfg"
    and st: "read_step cfg ev s = Some s'"
  shows "read_fresh_inv cfg s'"
proof -
  let ?T = "totalQueries cfg" and ?C = "concurrency cfg"
  from inv have si: "read_sched_inv cfg s" and ai: "read_accum_inv ReadTest_results s"
    and ll: "lanes_live ?T ?C (read_attempted s) (read_inflight s @ rd_immediates s)"
    unfolding read_fresh_inv_def by auto
  from si have ok: "lanes_ok ?T ?C (read_attempted s) (read_inflight s @ rd_immediates s)"
    unfolding read_sched_inv_def by simp
  have si': "read_sched_inv cfg s'" using si st by (rule read_sched_inv_step)
  have ai': "read_accum_inv ReadTest_results s'" using ai st by (rule read_accum_inv_step)
  have short: "int (length (rd_results s)) < ?T"
  proof (rule ccontr)
    assume "\<not> int (length (rd_results s)) < ?T"
    then have "?T \<le> int (length (read_attempted s))" by (simp add: read_attempted_def)
    with ok have "read_inflight s @ rd_immediates s = []" using lanes_ok_full by blast
    then have "rd_immediates s = []" "rd_awaiting s = []" by (auto simp: read_inflight_def)
    then have "read_step cfg ev s = None" by (rule read_step_needs_work)
    with st show False by simp
  qed
  with inv have pend: "rd_promise s = Pending" and avg: "r_avgLatency (rd_this_results s) = Finite 0"
    unfolding read_fresh_inv_def by auto
  show ?thesis
  proof (cases ev)
    case (ReadImmediate uid0 now)
    with si st obtain i rest uid where ir: "rd_immediates s = i # rest"
      and s': "s' = s\<lparr>rd_immediates := rest, rd_activeTasks := rd_activeTasks s + 1,
                    rd_awaiting := rd_awaiting s @ [(i, uid, now)]\<rparr>"
      using read_step_Immediate by blast
    have "lanes_live ?T ?C (read_attempted s') (read_inflight s' @ rd_immediates s')"
      using ll ir unfolding s' by (simp add: read_attempted_def read_inflight_def)
    with si' ai' short pend avg show ?thesis
      unfolding read_fresh_inv_def s' by simp
  next
    case (ReadSettled i db endT stamp now)
    with st obtain uid st0 where mem: "(i, uid, st0) \<in> set (rd_awaiting s)"
      and s': "s' = processQuery_resume cfg db endT stamp now i uid st0
                    (s\<lparr>rd_awaiting := filter (\<lambda>e. fst e \<noteq> i) (rd_awaiting s)\<rparr>)"
      using read_step_Settled by blast
    let ?s0 = "s\<lparr>rd_awaiting := filter (\<lambda>e. fst e \<noteq> i) (rd_awaiting s)\<rparr>"
    let ?r = "executeQuery db cfg uid i st0 endT stamp"
    from mem have iin: "i \<in> set (read_inflight s)" by (force simp: read_inflight_def)
    have rs: "rd_results s' = rd_results s @ [?r]" unfolding s' by (simp add: read_resume_fields)
    have att: "read_attempted s' = read_attempted s @ [i]"
      unfolding s' by (simp add: read_attempted_def read_resume_fields)
    have inf: "read_inflight s' = filter (\<lambda>x. x \<noteq> i) (read_inflight s)"
      unfolding s' by (simp add: read_inflight_def read_resume_fields map_fst_filter)
    have dl: "distinct (read_inflight s @ rd_immediates s)" using ok unfolding lanes_ok_def by auto
    from si have com: "completedQueries s = length (filter q_success (rd_results s))"
      unfolding read_sched_inv_def by simp
    from ai have err: "r_errors (rd_this_results s) = length (filter (\<lambda>r. \<not> q_success r) (rd_results s))"
      unfolding read_accum_inv_def by (simp add: ReadTest_results_def)
    have split: "length (filter q_success (rd_results s)) + length (filter (\<lambda>r. \<not> q_success r) (rd_results s))
                 = length (rd_results s)"
      by (rule sum_length_filter_compl)
    have cnt: "int (if q_success ?r then completedQueries s + 1 else completedQueries s)
                 + int (r_errors (read_tally (rd_this_results s) ?r)) = int (length (rd_results s)) + 1"
      using com err split by auto
    from si' have ok': "lanes_ok ?T ?C (read_attempted s') (read_inflight s' @ rd_immediates s')"
      and act': "rd_activeTasks s' = int (length (rd_awaiting s'))"
      unfolding read_sched_inv_def by auto
    show ?thesis
    proof (cases "?T \<le> int (length (rd_results s)) + 1")
      case True
      then have "?T \<le> int (length (read_attempted s'))" using rs by (simp add: read_attempted_def)
      with ok' have full: "set (read_attempted s') = {0 ..< ?T}" and emp: "read_inflight s' @ rd_immediates s' = []"
        using lanes_ok_full by blast+
      from emp have "rd_awaiting s' = []" by (simp add: read_inflight_def)
      with act' have "rd_activeTasks s' = 0" by simp
      then have "rd_activeTasks ?s0 - 1 = 0" unfolding s' by (simp add: read_resume_fields)
      with True cnt have fin: "read_finishing cfg ?s0 ?r"
        unfolding read_finishing_def by (auto split: if_splits)
      have tr': "rd_this_results s' = read_finish (read_tally (rd_this_results s) ?r) (rd_results s @ [?r])
                  (if q_success ?r then completedQueries s + 1 else completedQueries s) (rd_startTime s) now"
        unfolding s' using fin by (simp add: read_resume_fields)
      have pr': "rd_promise s' = Resolved (rd_this_results s')"
        unfolding tr' unfolding s' using fin pend by (simp add: read_resume_fields resolve_def)
      have "lanes_live ?T ?C (read_attempted s') (read_inflight s' @ rd_immediates s')"
        using full by (rule lanes_live_full)
      moreover have "\<not> int (length (rd_results s')) < ?T" using True rs by simp
      moreover have "r_queries (rd_this_results s') = rd_results s'" unfolding tr' rs by simp
      moreover have "read_completion_form (rd_this_results s')"
        unfolding tr' using com by (intro read_completion_form_finish) simp
      moreover have "filter q_success (rd_results s') = [] \<longrightarrow> r_avgLatency (rd_this_results s') = Finite 0"
        unfolding tr' rs using avg by simp
      ultimately show ?thesis using si' ai' pr' unfolding read_fresh_inv_def by simp
    next
      case False
      with cnt have nf: "\<not> read_finishing cfg ?s0 ?r"
        unfolding read_finishing_def by (auto split: if_splits)
      have tr': "rd_this_results s' = read_tally (rd_this_results s) ?r"
        unfolding s' using nf by (simp add: read_resume_fields)
      have pr': "rd_promise s' = Pending" unfolding s' using nf pend by (simp add: read_resume_fields)
      have "lanes_live ?T ?C (read_attempted s') (read_inflight s' @ rd_immediates s')"
      proof (cases "i + ?C < ?T")
        case True
        then have "rd_immediates s' = rd_immediates s @ [i + ?C]"
          unfolding s' using nf by (simp add: read_resume_fields)
        with lanes_live_settle_next [OF ll dl iin True C1] att inf show ?thesis by simp
      next
        case False
        then have "rd_immediates s' = rd_immediates s"
          unfolding s' using nf by (simp add: read_resume_fields)
        with lanes_live_settle_stop [OF ll dl iin False C1] att inf show ?thesis by simp
      qed
      moreover have "int (length (rd_results s')) < ?T" using False rs by simp
      moreover have "r_avgLatency (rd_this_results s') = Finite 0" unfolding tr' using avg by simp
      ultimately show ?thesis using si' ai' pr' unfolding read_fresh_inv_def by simp
    qed
  qed
qed

lemma read_fresh_inv_exec:
  "read_fresh_inv cfg s \<Longrightarrow> 1 \<le> concurrency cfg \<Longrightarrow> read_exec cfg evs s = Some s' \<Longrightarrow> read_fresh_inv cfg s'"
proof (induction evs arbitrary: s)
  case Nil then show ?case by simp
next
  case (Cons e es)
  then show ?case by (auto split: option.splits dest: read_fresh_inv_step)
qed

lemma read_fresh_idle_complete:
  assumes "read_fresh_inv cfg s" "read_idle s"
  shows "\<not> int (length (rd_results s)) < totalQueries cfg"
proof
  assume short: "int (length (rd_results s)) < totalQueries cfg"
  let ?T = "totalQueries cfg"
  from assms(1) have ok: "lanes_ok ?T (concurrency cfg) (read_attempted s) (read_inflight s @ rd_immediates s)"
    and ll: "lanes_live ?T (concurrency cfg) (read_attempted s) (read_inflight s @ rd_immediates s)"
    unfolding read_fresh_inv_def read_sched_inv_def by auto
  from assms(2) have emp: "read_inflight s @ rd_immediates s = []" by (simp add: read_idle_def read_inflight_def)
  have "\<exists>j. 0 \<le> j \<and> j < ?T \<and> j \<notin> set (read_attempted s)"
  proof (rule ccontr)
    assume "\<not> (\<exists>j. 0 \<le> j \<and> j < ?T \<and> j \<notin> set (read_attempted s))"
    then have "{0 ..< ?T} \<subseteq> set (read_attempted s)" by auto
    then have "card {0 ..< ?T} \<le> card (set (read_attempted s))" by (intro card_mono) auto
    also have "\<dots> \<le> length (read_attempted s)" by (rule card_length)
    finally have "nat ?T \<le> length (rd_results s)" by (simp add: read_attempted_def)
    with short show False by linarith
  qed
  then obtain j where "0 \<le> j" "j < ?T" "j \<notin> set (read_attempted s)" by blast
  with ll emp show False unfolding lanes_live_def by auto
qed

subsection \<open>The read run: the settled promise\<close>

lemma read_resolved_inv_init: "read_resolved_inv r0 (runConcurrentReads cfg r0 now)"
  by (simp add: read_resolved_inv_def runConcurrentReads_def)

lemma read_resolved_inv_step:
  assumes ri: "read_resolved_inv r0 s" and ai: "read_accum_inv r0 s" and si: "read_sched_inv cfg s"
    and st: "read_step cfg ev s = Some s'"
  shows "read_resolved_inv r0 s'"
proof (cases ev)
  case (ReadImmediate uid0 now)
  with st obtain i rest where "rd_immediates s = i # rest"
    and "s' = processQuery_enter cfg uid0 now i (s\<lparr>rd_immediates := rest\<rparr>)"
    by (cases "rd_immediates s") auto
  then have "rd_promise s' = rd_promise s" by (auto simp: processQuery_enter_def Let_def)
  with ri show ?thesis unfolding read_resolved_inv_def by simp
next
  case (ReadSettled i db endT stamp now)
  with st obtain uid st0 where
    s': "s' = processQuery_resume cfg db endT stamp now i uid st0
                  (s\<lparr>rd_awaiting := filter (\<lambda>e. fst e \<noteq> i) (rd_awaiting s)\<rparr>)"
    using read_step_Settled by blast
  let ?s0 = "s\<lparr>rd_awaiting := filter (\<lambda>e. fst e \<noteq> i) (rd_awaiting s)\<rparr>"
  let ?r = "executeQuery db cfg uid i st0 endT stamp"
  have ai': "read_accum_inv r0 s'" using ai st by (rule read_accum_inv_step)
  show ?thesis
  proof (cases "read_finishing cfg ?s0 ?r \<and> rd_promise s = Pending")
    case True
    then have tr': "rd_this_results s' = read_finish (read_tally (rd_this_results s) ?r) (rd_results s @ [?r])
                  (if q_success ?r then completedQueries s + 1 else completedQueries s) (rd_startTime s) now"
      and pr': "rd_promise s' = Resolved (rd_this_results s')"
      unfolding s' by (simp_all add: read_resume_fields resolve_def)
    have "completedQueries s = length (filter q_success (rd_results s))"
      using si unfolding read_sched_inv_def by simp
    then have "read_completion_form (rd_this_results s')"
      unfolding tr' by (intro read_completion_form_finish) simp
    moreover have "r_errors r0 \<le> r_errors (rd_this_results s')"
      "r_totalRecordsRead r0 \<le> r_totalRecordsRead (rd_this_results s')"
      "r_maxLatency r0 \<le> r_maxLatency (rd_this_results s')"
      "r_minLatency r0 \<noteq> NaN \<longrightarrow> js_le (r_minLatency (rd_this_results s')) (r_minLatency r0)"
      using ai' unfolding read_accum_inv_def by auto
    ultimately show ?thesis unfolding read_resolved_inv_def pr' by simp
  next
    case False
    then have "rd_promise s' = rd_promise s"
      unfolding s' by (auto simp: read_resume_fields resolve_def split: promise.splits)
    with ri show ?thesis unfolding read_resolved_inv_def by simp
  qed
qed

lemma read_resolved_inv_exec:
  "read_resolved_inv r0 s \<Longrightarrow> read_accum_inv r0 s \<Longrightarrow> read_sched_inv cfg s \<Longrightarrow>
     read_exec cfg evs s = Some s' \<Longrightarrow> read_resolved_inv r0 s'"
proof (induction evs arbitrary: s)
  case Nil then show ?case by simp
next
  case (Cons e es)
  from Cons.prems obtain s1 where s1: "read_step cfg e s = Some s1" "read_exec cfg es s1 = Some s'"
    by (auto split: option.splits)
  have "read_resolved_inv r0 s1" using Cons.prems(1,2,3) s1(1) by (rule read_resolved_inv_step)
  moreover have "read_accum_inv r0 s1" using Cons.prems(2) s1(1) by (rule read_accum_inv_step)
  moreover have "read_sched_inv cfg s1" using Cons.prems(3) s1(1) by (rule read_sched_inv_step)
  ultimately show ?case using s1(2) by (rule Cons.IH)
qed

lemma read_exec_no_work:
  assumes "rd_immediates s = []" "rd_awaiting s = []" "read_exec cfg evs s = Some s'"
  shows "evs = [] \<and> s' = s"
proof (cases evs)
  case Nil with assms(3) show ?thesis by simp
next
  case (Cons e es)
  with assms(3) read_step_needs_work [OF assms(1,2), of cfg e] show ?thesis by simp
qed

lemma read_step_enabled:
  assumes "\<not> read_idle s"
  shows "\<exists>ev s'. read_step cfg ev s = Some s'"
proof (cases "rd_immediates s")
  case (Cons i rest)
  then have "read_step cfg (ReadImmediate uid0 now) s
               = Some (processQuery_enter cfg uid0 now i (s\<lparr>rd_immediates := rest\<rparr>))" by simp
  then show ?thesis by blast
next
  case Nil
  with assms obtain i uid st rest where aw: "rd_awaiting s = (i, uid, st) # rest"
    unfolding read_idle_def by (cases "rd_awaiting s") auto
  then have "read_step cfg (ReadSettled i db endT stamp now) s
               = Some (processQuery_resume cfg db endT stamp now i uid st
                        (s\<lparr>rd_awaiting := filter (\<lambda>e. fst e \<noteq> i) (rd_awaiting s)\<rparr>))" by simp
  then show ?thesis by blast
qed

lemma read_sched_inv_run:
  assumes "read_exec cfg evs (runConcurrentReads cfg r0 t0) = Some s"
  shows "read_sched_inv cfg s"
  using read_sched_inv_init assms by (rule read_sched_inv_exec)

lemma read_fresh_inv_run:
  assumes "1 \<le> totalQueries cfg" "1 \<le> concurrency cfg"
    and "read_exec cfg evs (runConcurrentReads cfg ReadTest_results t0) = Some s"
  shows "read_fresh_inv cfg s"
  using read_fresh_inv_init [OF assms(1,2)] assms(2,3) by (rule read_fresh_inv_exec)

lemma read_fresh_complete:
  assumes fi: "read_fresh_inv cfg s" and T1: "1 \<le> totalQueries cfg"
    and full: "\<not> int (length (rd_results s)) < totalQueries cfg"
  shows "rd_promise s = Resolved (rd_this_results s)"
    and "r_queries (rd_this_results s) = rd_results s"
    and "read_completion_form (rd_this_results s)"
    and "filter q_success (rd_results s) = [] \<longrightarrow> r_avgLatency (rd_this_results s) = Finite 0"
    and "distinct (read_attempted s)"
    and "set (read_attempted s) = {0 ..< totalQueries cfg}"
    and "int (length (rd_results s)) = totalQueries cfg"
    and "int (length (filter q_success (rd_results s))) + int (r_errors (rd_this_results s)) = totalQueries cfg"
    and "read_idle s"
proof -
  let ?T = "totalQueries cfg"
  from fi full show "rd_promise s = Resolved (rd_this_results s)"
    and "r_queries (rd_this_results s) = rd_results s"
    and "read_completion_form (rd_this_results s)"
    and "filter q_success (rd_results s) = [] \<longrightarrow> r_avgLatency (rd_this_results s) = Finite 0"
    unfolding read_fresh_inv_def by auto
  from fi have ok: "lanes_ok ?T (concurrency cfg) (read_attempted s) (read_inflight s @ rd_immediates s)"
    and ai: "read_accum_inv ReadTest_results s"
    unfolding read_fresh_inv_def read_sched_inv_def by auto
  from ok show d: "distinct (read_attempted s)" unfolding lanes_ok_def by auto
  from full have "?T \<le> int (length (read_attempted s))" by (simp add: read_attempted_def)
  with ok have f: "set (read_attempted s) = {0 ..< ?T}" and e: "read_inflight s @ rd_immediates s = []"
    using lanes_ok_full by blast+
  from f show "set (read_attempted s) = {0 ..< ?T}" .
  from e show "read_idle s" by (simp add: read_idle_def read_inflight_def)
  have "length (read_attempted s) = card (set (read_attempted s))" using d by (simp add: distinct_card)
  with f have "length (read_attempted s) = nat ?T" by simp
  with T1 show len: "int (length (rd_results s)) = ?T" by (simp add: read_attempted_def)
  from ai have "r_errors (rd_this_results s) = length (filter (\<lambda>r. \<not> q_success r) (rd_results s))"
    unfolding read_accum_inv_def by (simp add: ReadTest_results_def)
  moreover have "length (filter q_success (rd_results s)) + length (filter (\<lambda>r. \<not> q_success r) (rd_results s))
                 = length (rd_results s)"
    by (rule sum_length_filter_compl)
  ultimately show "int (length (filter q_success (rd_results s))) + int (r_errors (rd_this_results s)) = ?T"
    using len by linarith
qed

lemma read_fresh_pending:
  assumes fi: "read_fresh_inv cfg s" and short: "int (length (rd_results s)) < totalQueries cfg"
  shows "rd_promise s = Pending" and "\<not> read_idle s"
proof -
  from fi short show "rd_promise s = Pending" unfolding read_fresh_inv_def by auto
  show "\<not> read_idle s" using read_fresh_idle_complete [OF fi] short by blast
qed

lemma read_run_length:
  assumes "read_exec cfg evs (runConcurrentReads cfg r0 t0) = Some s"
  shows "int (length evs) \<le> 2 * max 0 (totalQueries cfg)"
proof -
  have si: "read_sched_inv cfg s" using assms by (rule read_sched_inv_run)
  have "2 * length (rd_results s) + length (rd_awaiting s) = length evs"
    using read_exec_count [OF read_sched_inv_init assms] by (simp add: runConcurrentReads_def)
  moreover have "int (length (rd_results s)) + int (length (rd_awaiting s)) \<le> max 0 (totalQueries cfg)"
    using si by (rule read_sched_inv_size)
  ultimately show ?thesis by linarith
qed

subsection \<open>Batch sizes\<close>

lemma totalBatches_bounds:
  assumes "1 \<le> batchSize cfg"
  shows "totalRecords cfg \<le> totalBatches cfg * batchSize cfg"
    and "(totalBatches cfg - 1) * batchSize cfg < totalRecords cfg"
proof -
  let ?R = "of_int (totalRecords cfg) :: rat" and ?B = "of_int (batchSize cfg) :: rat"
  have B: "0 < ?B" using assms by simp
  have "?R / ?B \<le> of_int (totalBatches cfg)" unfolding totalBatches_def by (rule le_of_int_ceiling)
  then have "?R \<le> of_int (totalBatches cfg) * ?B" using B by (simp add: pos_divide_le_eq)
  then have "?R \<le> of_int (totalBatches cfg * batchSize cfg)" by simp
  then show "totalRecords cfg \<le> totalBatches cfg * batchSize cfg" by (simp only: of_int_le_iff)
  have "of_int (totalBatches cfg) - 1 < ?R / ?B" unfolding totalBatches_def
    using ceiling_correct [of "?R / ?B"] by simp
  then have "(of_int (totalBatches cfg) - 1) * ?B < ?R" using B by (simp add: pos_less_divide_eq)
  then have "of_int ((totalBatches cfg - 1) * batchSize cfg) < ?R" by simp
  then show "(totalBatches cfg - 1) * batchSize cfg < totalRecords cfg" by (simp only: of_int_less_iff)
qed

lemma actualBatchSize_pos:
  assumes "1 \<le> batchSize cfg" "0 \<le> b" "b < totalBatches cfg"
  shows "0 < actualBatchSize cfg b"
proof -
  have "b * batchSize cfg \<le> (totalBatches cfg - 1) * batchSize cfg"
    using assms by (intro mult_right_mono) auto
  with totalBatches_bounds(2) [OF assms(1)] have "b * batchSize cfg < totalRecords cfg" by simp
  with assms(1) show ?thesis by (simp add: actualBatchSize_def)
qed

lemma batch_prefix_sum:
  assumes "1 \<le> batchSize cfg" "int n \<le> totalBatches cfg" "0 \<le> totalRecords cfg"
  shows "(\<Sum>b<n. actualBatchSize cfg (int b)) = min (totalRecords cfg) (int n * batchSize cfg)"
  using assms(2)
proof (induction n)
  case 0
  show ?case using assms(3) by simp
next
  case (Suc n)
  then have n: "int n \<le> totalBatches cfg - 1" by simp
  have "int n * batchSize cfg \<le> (totalBatches cfg - 1) * batchSize cfg"
    using assms(1) n by (intro mult_right_mono) auto
  with totalBatches_bounds(2) [OF assms(1)] have lt: "int n * batchSize cfg < totalRecords cfg" by simp
  from Suc have "(\<Sum>b<n. actualBatchSize cfg (int b)) = min (totalRecords cfg) (int n * batchSize cfg)" by simp
  with lt show ?case by (simp add: actualBatchSize_def algebra_simps min_def)
qed


lemma batch_total_sum:
  assumes "1 \<le> totalRecords cfg" "1 \<le> batchSize cfg"
  shows "(\<Sum>b = 0 ..< totalBatches cfg. actualBatchSize cfg b) = totalRecords cfg"
proof -
  let ?T = "totalBatches cfg"
  have T0: "0 \<le> ?T"
  proof (rule ccontr)
    assume "\<not> 0 \<le> ?T"
    then have "?T * batchSize cfg \<le> 0" using assms(2) by (simp add: mult_le_0_iff)
    with totalBatches_bounds(1) [OF assms(2)] assms(1) show False by simp
  qed
  have "int ` {0 ..< nat ?T} = {int 0 ..< int (nat ?T)}" by (rule image_int_atLeastLessThan)
  then have "{0 ..< ?T} = int ` {..< nat ?T}"
    using T0 by (simp add: atLeast0LessThan)
  then have "(\<Sum>b = 0 ..< ?T. actualBatchSize cfg b) = (\<Sum>b \<in> int ` {..< nat ?T}. actualBatchSize cfg b)"
    by simp
  also have "\<dots> = (\<Sum>b < nat ?T. actualBatchSize cfg (int b))"
    by (simp add: sum.reindex comp_def)
  also have "\<dots> = min (totalRecords cfg) (int (nat ?T) * batchSize cfg)"
    using assms T0 by (intro batch_prefix_sum) auto
  also have "\<dots> = totalRecords cfg"
    using totalBatches_bounds(1) [OF assms(2)] T0 by simp
  finally show ?thesis .
qed

lemma length_generateBatch: "int (length (generateBatch rnd n u)) = max 0 n"
  by (simp add: generateBatch_def generateMessages_def)

lemma totalBatches_div: "totalBatches cfg = - (- totalRecords cfg div batchSize cfg)"
  by (simp add: totalBatches_def ceiling_divide_eq_div)

subsection \<open>Chains and lanes\<close>

lemma stride_chain_set:
  "1 \<le> C \<Longrightarrow> set (stride_chain T C i) = {j. i \<le> j \<and> j < T \<and> j mod C = i mod C}"
proof (induction T C i rule: stride_chain.induct)
  case (1 T C i)
  note C1 = \<open>1 \<le> C\<close>
  show ?case
  proof (cases "1 \<le> C \<and> i < T")
    case True
    then have IH: "set (stride_chain T C (i + C)) = {j. i + C \<le> j \<and> j < T \<and> j mod C = (i + C) mod C}"
      using "1.IH" [OF True C1] by simp
    have "{j. i \<le> j \<and> j < T \<and> j mod C = i mod C}
            = insert i {j. i + C \<le> j \<and> j < T \<and> j mod C = i mod C}"
    proof (intro set_eqI iffI)
      fix j assume "j \<in> {j. i \<le> j \<and> j < T \<and> j mod C = i mod C}"
      then have j: "i \<le> j" "j < T" "j mod C = i mod C" by auto
      show "j \<in> insert i {j. i + C \<le> j \<and> j < T \<and> j mod C = i mod C}"
      proof (cases "j = i")
        case True then show ?thesis by simp
      next
        case False
        with j have "i < j" by simp
        with True j have "i + C \<le> j" using same_lane_next [of C i j] by simp
        with j show ?thesis by simp
      qed
    next
      fix j assume "j \<in> insert i {j. i + C \<le> j \<and> j < T \<and> j mod C = i mod C}"
      with True show "j \<in> {j. i \<le> j \<and> j < T \<and> j mod C = i mod C}" by auto
    qed
    moreover have "stride_chain T C i = i # stride_chain T C (i + C)"
      using True by (subst stride_chain.simps) simp
    ultimately show ?thesis using IH by simp
  next
    case False
    then have "stride_chain T C i = []" by (subst stride_chain.simps) simp
    with False C1 show ?thesis by auto
  qed
qed


lemma lane_of_small:
  assumes "1 \<le> C" "0 \<le> i" "i < T"
  shows "lane_of T C i = (if C \<le> T then i mod C else i)"
  using assms by (auto simp: lane_of_def min_def)

lemma lane_of_range:
  assumes "1 \<le> C" "0 \<le> i" "i < T"
  shows "0 \<le> lane_of T C i \<and> lane_of T C i < min C T"
  using assms by (auto simp: lane_of_def min_def)

lemma lane_of_eq_iff:
  assumes "1 \<le> C" "0 \<le> i" "i < T" "0 \<le> j" "j < T"
  shows "lane_of T C i = lane_of T C j \<longleftrightarrow> i mod C = j mod C"
  using assms by (auto simp: lane_of_def min_def)

lemma stride_chain_lane:
  assumes "1 \<le> C" "0 \<le> l" "l < min C T"
  shows "set (stride_chain T C l) = {i. 0 \<le> i \<and> i < T \<and> lane_of T C i = l}"
proof (cases "C \<le> T")
  case True
  with assms have l: "l mod C = l" by simp
  have "\<And>j. 0 \<le> j \<Longrightarrow> j mod C = l \<Longrightarrow> l \<le> j"
    using assms(1) by (metis zmod_le_nonneg_dividend)
  then show ?thesis
    using True assms l by (auto simp: stride_chain_set lane_of_def min_def)
next
  case False
  with assms have "l < T" "T < C" by auto
  then show ?thesis
    using False assms by (auto simp: stride_chain_set lane_of_def min_def)
qed

lemma lanes_ok_one_per_lane:
  assumes "lanes_ok T C ds live"
  shows "\<forall>i \<in> set live. \<forall>j \<in> set live. lane_of T C i = lane_of T C j \<longrightarrow> i = j"
proof (intro ballI impI)
  fix i j assume ij: "i \<in> set live" "j \<in> set live" and l: "lane_of T C i = lane_of T C j"
  from assms ij have C1: "1 \<le> C" and r: "0 \<le> i" "i < T" "0 \<le> j" "j < T"
    and u: "i mod C = j mod C \<longrightarrow> i = j"
    unfolding lanes_ok_def by auto
  from l have "i mod C = j mod C" using lane_of_eq_iff [OF C1 r] by simp
  with u show "i = j" by simp
qed

lemma lanes_ok_chain:
  assumes ok: "lanes_ok T C ds live" and C1: "1 \<le> C" and i: "i \<in> set (ds @ live)"
  shows "i \<in> set (stride_chain T C (lane_of T C i)) \<and>
         (i < min C T \<or> (i - C \<in> set ds \<and> lane_of T C (i - C) = lane_of T C i))"
proof -
  from ok i have r: "0 \<le> i" "i < T" and p: "C \<le> i \<longrightarrow> i - C \<in> set ds"
    unfolding lanes_ok_def by auto
  have lr: "0 \<le> lane_of T C i \<and> lane_of T C i < min C T" using C1 r by (rule lane_of_range)
  then have "set (stride_chain T C (lane_of T C i)) = {j. 0 \<le> j \<and> j < T \<and> lane_of T C j = lane_of T C i}"
    using C1 by (intro stride_chain_lane) auto
  with r have m: "i \<in> set (stride_chain T C (lane_of T C i))" by simp
  have "i < min C T \<or> (i - C \<in> set ds \<and> lane_of T C (i - C) = lane_of T C i)"
  proof (cases "C \<le> i")
    case True
    with r have "C \<le> T" by simp
    then have "lane_of T C (i - C) = lane_of T C i" by (simp add: lane_of_def min_def)
    with True p show ?thesis by simp
  next
    case False
    with r show ?thesis by simp
  qed
  with m show ?thesis by simp
qed

lemma stride_chain_small:
  "stride_chain 3 2 0 = [0, 2]" "stride_chain 3 2 1 = [1]"
  by (simp_all add: stride_chain.simps)

subsection \<open>Evaluating sample runs\<close>

lemmas sample_defs =
  sample_rnd_def db_ok_def db_down_def cfg_small_def cfg_single_def cfg_empty_def cfg_five_def
  cfg_two_def evs_two_first_def evs_two_second_def
  evs_failing_instant_def db_three_def revs_three_rows_def
  evs_two_started_def evs_small_def revs_two_started_def revs_small_def evs_five_failing_def
  evs_instant_def revs_instant_def evs_one_failing_def evs_one_ok_def revs_one_failing_def
  revs_one_ok_def

lemmas write_run_defs =
  totalBatches_div actualBatchSize_def generateBatch_def generateMessages_def
  processBatch_enter_def processBatch_resume_def executeBatch_def writeBatch_def tally_def
  finish_def resolve_def runConcurrentWrites_def WriteTest_results_def Let_def
  js_div_def js_times_def js_min_def upto.simps

lemmas read_run_defs =
  processQuery_enter_def processQuery_resume_def executeQuery_def read_tally_def
  read_finish_def resolve_def runConcurrentReads_def ReadTest_results_def Let_def
  js_div_def js_times_def js_min_def upto.simps

lemmas sample_states =
  write_after_def read_after_def st_small_def rst_small_def st_five_failing_def
  st_instant_def rst_instant_def st_first_def st_second_def rst_first_def rst_second_def
  st_two_first_def st_two_second_def st_failing_instant_def rst_three_rows_def

lemma st_small_run:
  "exec cfg_small evs_small (runConcurrentWrites cfg_small WriteTest_results 0) = Some st_small"
  by (simp add: sample_states sample_defs write_run_defs)

lemma rst_small_run:
  "read_exec cfg_small revs_small (runConcurrentReads cfg_small ReadTest_results 0) = Some rst_small"
  by (simp add: sample_states sample_defs read_run_defs)

lemma st_five_failing_run:
  "exec cfg_five evs_five_failing (runConcurrentWrites cfg_five WriteTest_results 0)
     = Some st_five_failing"
  by (simp add: sample_states sample_defs write_run_defs)

lemma st_instant_run:
  "exec cfg_single evs_instant (runConcurrentWrites cfg_single WriteTest_results 0) = Some st_instant"
  by (simp add: sample_states sample_defs write_run_defs)

lemma rst_instant_run:
  "read_exec cfg_single revs_instant (runConcurrentReads cfg_single ReadTest_results 0)
     = Some rst_instant"
  by (simp add: sample_states sample_defs read_run_defs)

lemma st_first_run:
  "exec cfg_single evs_one_failing (runConcurrentWrites cfg_single WriteTest_results 0)
     = Some st_first"
  by (simp add: sample_states sample_defs write_run_defs)

lemma st_second_run:
  "exec cfg_single evs_one_ok (runConcurrentWrites cfg_single (this_results st_first) 10)
     = Some st_second"
  by (simp add: sample_states sample_defs write_run_defs)

lemma rst_first_run:
  "read_exec cfg_single revs_one_failing (runConcurrentReads cfg_single ReadTest_results 0)
     = Some rst_first"
  by (simp add: sample_states sample_defs read_run_defs)


lemma st_failing_instant_run:
  "exec cfg_single evs_failing_instant (runConcurrentWrites cfg_single WriteTest_results 0)
     = Some st_failing_instant"
  by (simp add: sample_states sample_defs write_run_defs)

lemma rst_three_rows_run:
  "read_exec cfg_single revs_three_rows (runConcurrentReads cfg_single ReadTest_results 0)
     = Some rst_three_rows"
  by (simp add: sample_states sample_defs read_run_defs)

lemma sample_totals:
  "totalBatches cfg_small = 3" "totalQueries cfg_small = 3" "concurrency cfg_small = 2"
  "totalBatches cfg_single = 1" "totalQueries cfg_single = 1" "concurrency cfg_single = 1"
  "totalBatches cfg_five = 5" "totalQueries cfg_five = 5" "concurrency cfg_five = 2"
  "totalBatches cfg_empty = 0" "totalQueries cfg_empty = 0" "concurrency cfg_empty = 10"
  by (simp_all add: sample_defs totalBatches_div)

subsection \<open>Invariants of whole runs\<close>

lemma resolved_inv_run:
  assumes "exec cfg evs (runConcurrentWrites cfg r0 t0) = Some s"
  shows "resolved_inv r0 s"
  using resolved_inv_init accum_inv_init assms by (rule resolved_inv_exec)


lemma read_resolved_inv_run:
  assumes "read_exec cfg evs (runConcurrentReads cfg r0 t0) = Some s"
  shows "read_resolved_inv r0 s"
  using read_resolved_inv_init read_accum_inv_init read_sched_inv_init assms
  by (rule read_resolved_inv_exec)


lemma js_rate:
  "js_times (js_div (int n) t) 1000 =
     (if t \<noteq> 0 then Finite (of_nat n / of_int t * 1000)
      else if 0 < n then Infinity else NaN)"
  by (simp add: js_div_def js_times_def)

lemma no_lanes:
  assumes "totalBatches cfg \<le> 0"
  shows "immediates (runConcurrentWrites cfg r0 t0) = []"
    and "awaiting (runConcurrentWrites cfg r0 t0) = []"
  using assms by (simp_all add: runConcurrentWrites_def)

lemma read_no_lanes:
  assumes "totalQueries cfg \<le> 0"
  shows "rd_immediates (runConcurrentReads cfg r0 t0) = []"
    and "rd_awaiting (runConcurrentReads cfg r0 t0) = []"
  using assms by (simp_all add: runConcurrentReads_def)

subsection \<open>Percentile indices\<close>

lemma percentileIndex_less:
  assumes "0 < n" "pct < 100"
  shows "percentileIndex n pct < n"
proof -
  have "n * pct < n * 100" using assms by simp
  then show ?thesis unfolding percentileIndex_def by (simp add: less_mult_imp_div_less mult.commute)
qed

lemma percentileIndex_clamped:
  assumes "0 < n" "pct < 100"
  shows "min (n - 1) (n * pct div 100) = percentileIndex n pct"
  using percentileIndex_less [OF assms] by (simp add: percentileIndex_def)

lemma latencyPercentiles_eq:
  "latencyPercentiles ls =
     (let sorted = sort ls; n = length sorted
      in if n = 0 then None
         else Some (Some (sorted ! min (n - 1) (n * 50 div 100)),
                    Some (sorted ! min (n - 1) (n * 95 div 100)),
                    Some (sorted ! min (n - 1) (n * 99 div 100))))"
proof (cases "ls = []")
  case True
  then show ?thesis by (simp add: latencyPercentiles_def)
next
  case False
  then have n: "0 < length (sort ls)" by simp
  have i: "percentileIndex (length (sort ls)) 50 < length (sort ls)"
    "percentileIndex (length (sort ls)) 95 < length (sort ls)"
    "percentileIndex (length (sort ls)) 99 < length (sort ls)"
    using n by (intro percentileIndex_less; simp)+
  have c: "min (length (sort ls) - 1) (length (sort ls) * 50 div 100) = percentileIndex (length (sort ls)) 50"
    "min (length (sort ls) - 1) (length (sort ls) * 95 div 100) = percentileIndex (length (sort ls)) 95"
    "min (length (sort ls) - 1) (length (sort ls) * 99 div 100) = percentileIndex (length (sort ls)) 99"
    using n by (intro percentileIndex_clamped; simp)+
  show ?thesis
    unfolding latencyPercentiles_def Let_def js_index_def c
    using False i by simp
qed

subsection \<open>The write run: the last event and the elapsed time\<close>

lemma exec_append:
  "exec cfg (evs @ [e]) s0 = (case exec cfg evs s0 of None \<Rightarrow> None | Some s1 \<Rightarrow> step cfg e s1)"
proof (induction evs arbitrary: s0)
  case Nil
  show ?case by (simp split: option.splits)
next
  case (Cons a evs)
  then show ?case by (simp split: option.splits)
qed

lemma startTime_step:
  assumes "step cfg ev s = Some s'"
  shows "startTime s' = startTime s"
proof (cases ev)
  case (Immediate rnd now)
  with assms obtain i rest where "immediates s = i # rest"
    and "s' = processBatch_enter cfg rnd now i (s\<lparr>immediates := rest\<rparr>)"
    by (cases "immediates s") auto
  then show ?thesis by (auto simp: processBatch_enter_def Let_def)
next
  case (Settled i db endT stamp now)
  with assms obtain bd st0 where
    "s' = processBatch_resume cfg db endT stamp now i bd st0
            (s\<lparr>awaiting := filter (\<lambda>e. fst e \<noteq> i) (awaiting s)\<rparr>)"
    using step_Settled by blast
  then show ?thesis by (simp add: resume_fields)
qed

lemma startTime_exec:
  "exec cfg evs s = Some s' \<Longrightarrow> startTime s' = startTime s"
proof (induction evs arbitrary: s)
  case Nil then show ?case by simp
next
  case (Cons e es)
  then show ?case by (auto split: option.splits dest: startTime_step)
qed

lemma fresh_step_short:
  assumes fi: "fresh_inv cfg s" and st: "step cfg ev s = Some s'"
  shows "int (length (results s)) < totalBatches cfg"
proof (rule ccontr)
  assume "\<not> int (length (results s)) < totalBatches cfg"
  then have "totalBatches cfg \<le> int (length (attempted s))" by (simp add: attempted_def)
  moreover from fi have "lanes_ok (totalBatches cfg) (concurrency cfg) (attempted s)
                           (inflight s @ immediates s)"
    unfolding fresh_inv_def sched_inv_def by simp
  ultimately have "inflight s @ immediates s = []" using lanes_ok_full by blast
  then have "immediates s = []" "awaiting s = []" by (auto simp: inflight_def)
  then have "step cfg ev s = None" by (rule step_needs_work)
  with st show False by simp
qed

lemma fresh_final_time:
  assumes T1: "1 \<le> totalBatches cfg" and C1: "1 \<le> concurrency cfg"
    and run: "exec cfg evs (runConcurrentWrites cfg WriteTest_results t0) = Some s"
    and idl: "idle s"
  shows "\<exists>evs' i db endT stamp now.
           evs = evs' @ [Settled i db endT stamp now] \<and>
           w_totalTime (this_results s) = now - t0"
proof -
  let ?init = "runConcurrentWrites cfg WriteTest_results t0"
  have "immediates ?init \<noteq> []" using T1 C1 by (simp add: runConcurrentWrites_def upto.simps)
  then have "\<not> idle ?init" by (simp add: idle_def)
  with run idl have "evs \<noteq> []" by (cases evs) auto
  then obtain evs' e where evs: "evs = evs' @ [e]" by (cases evs rule: rev_cases) auto
  with run obtain s1 where r1: "exec cfg evs' ?init = Some s1" and st: "step cfg e s1 = Some s"
    by (auto simp: exec_append split: option.splits)
  have fi1: "fresh_inv cfg s1" using T1 C1 r1 by (rule fresh_inv_run)
  have fi: "fresh_inv cfg s" using T1 C1 run by (rule fresh_inv_run)
  have t1: "startTime s1 = t0" using startTime_exec [OF r1] by (simp add: runConcurrentWrites_def)
  have "int (length (results s1)) < totalBatches cfg" using fi1 st by (rule fresh_step_short)
  with fi1 have p1: "promise s1 = Pending" by (rule fresh_pending(1))
  have "\<not> int (length (results s)) < totalBatches cfg" using fresh_pending(2) [OF fi] idl by blast
  with fi T1 have p: "promise s = Resolved (this_results s)" by (rule fresh_complete(1))
  show ?thesis
  proof (cases e)
    case (Immediate rnd now)
    have "sched_inv cfg s1" using fi1 unfolding fresh_inv_def by simp
    with st Immediate obtain i rest bd where
      "s = s1\<lparr>immediates := rest, activeTasks := activeTasks s1 + 1,
                awaiting := awaiting s1 @ [(i, bd, now)]\<rparr>"
      using step_Immediate by blast
    then have "awaiting s \<noteq> []" by simp
    with idl show ?thesis by (simp add: idle_def)
  next
    case (Settled i db endT stamp now)
    with st obtain bd st0 where
      s: "s = processBatch_resume cfg db endT stamp now i bd st0
                (s1\<lparr>awaiting := filter (\<lambda>e. fst e \<noteq> i) (awaiting s1)\<rparr>)"
      using step_Settled by blast
    let ?s0 = "s1\<lparr>awaiting := filter (\<lambda>e. fst e \<noteq> i) (awaiting s1)\<rparr>"
    let ?r = "executeBatch db cfg bd i st0 endT stamp"
    have fin: "finishing cfg ?s0 ?r"
    proof (rule ccontr)
      assume "\<not> finishing cfg ?s0 ?r"
      then have "promise s = promise s1" unfolding s by (simp add: resume_fields)
      with p p1 show False by simp
    qed
    then have "this_results s
                 = finish (tally (this_results s1) ?r) (results s1 @ [?r]) (startTime s1) now"
      unfolding s by (simp add: resume_fields)
    then have "w_totalTime (this_results s) = now - t0" using t1 by simp
    with evs Settled show ?thesis by blast
  qed
qed

section \<open>Every index is attempted exactly once\<close>

text \<open>
  Claim C1. For every configuration with total \<open>T \<ge> 1\<close> and concurrency \<open>C \<ge> 1\<close> the
  run terminates with every operation index \<open>0 .. T-1\<close> attempted exactly once, and at
  the end the reported success count plus the reported error count is \<open>T\<close>.

  The run is the one the callers make: \<open>runConcurrentWrites\<close> (or \<open>runConcurrentReads\<close>)
  on a newly constructed test object. For every schedule of the event loop: the schedule
  has at most \<open>2 * T\<close> events; while something is queued or in flight some event is
  enabled; the promise is settled exactly when nothing is queued or in flight; and then
  it holds \<open>this.results\<close>, the records carry each index of \<open>0 ..< T\<close> once, and the
  successful records and the error count add up to \<open>T\<close>.
\<close>

theorem C1_every_index_attempted_once:
  assumes "1 \<le> totalBatches cfg" and "1 \<le> totalQueries cfg" and "1 \<le> concurrency cfg"
      and "exec cfg evs (runConcurrentWrites cfg WriteTest_results t0) = Some s"
      and "read_exec cfg revs (runConcurrentReads cfg ReadTest_results t1) = Some s'"
  shows "(int (length evs) \<le> 2 * totalBatches cfg \<and>
          (\<not> idle s \<longrightarrow> (\<exists>ev s1. step cfg ev s = Some s1)) \<and>
          (idle s \<longleftrightarrow> promise s \<noteq> Pending) \<and>
          (idle s \<longrightarrow>
             promise s = Resolved (this_results s) \<and>
             w_batches (this_results s) = results s \<and>
             distinct (attempted s) \<and> set (attempted s) = {0 ..< totalBatches cfg} \<and>
             int (length (results s)) = totalBatches cfg \<and>
             int (length (filter success (results s))) + int (w_errors (this_results s))
               = totalBatches cfg)) \<and>
         (int (length revs) \<le> 2 * totalQueries cfg \<and>
          (\<not> read_idle s' \<longrightarrow> (\<exists>ev s1. read_step cfg ev s' = Some s1)) \<and>
          (read_idle s' \<longleftrightarrow> rd_promise s' \<noteq> Pending) \<and>
          (read_idle s' \<longrightarrow>
             rd_promise s' = Resolved (rd_this_results s') \<and>
             r_queries (rd_this_results s') = rd_results s' \<and>
             distinct (read_attempted s') \<and> set (read_attempted s') = {0 ..< totalQueries cfg} \<and>
             int (length (rd_results s')) = totalQueries cfg \<and>
             r_totalQueries (rd_this_results s') = length (filter q_success (rd_results s')) \<and>
             int (r_totalQueries (rd_this_results s')) + int (r_errors (rd_this_results s'))
               = totalQueries cfg))"
proof -
  have wf: "fresh_inv cfg s" using assms(1,3,4) by (rule fresh_inv_run)
  have rf: "read_fresh_inv cfg s'" using assms(2,3,5) by (rule read_fresh_inv_run)
  have wl: "int (length evs) \<le> 2 * totalBatches cfg"
    using run_length [OF assms(4)] assms(1) by simp
  have rl: "int (length revs) \<le> 2 * totalQueries cfg"
    using read_run_length [OF assms(5)] assms(2) by simp
  have wp: "\<not> idle s \<longrightarrow> (\<exists>ev s1. step cfg ev s = Some s1)"
    using step_enabled by blast
  have rp: "\<not> read_idle s' \<longrightarrow> (\<exists>ev s1. read_step cfg ev s' = Some s1)"
    using read_step_enabled by blast
  have wi: "idle s \<longleftrightarrow> \<not> int (length (results s)) < totalBatches cfg"
    using fresh_complete(9) [OF wf assms(1)] fresh_pending(2) [OF wf] by blast
  have ri: "read_idle s' \<longleftrightarrow> \<not> int (length (rd_results s')) < totalQueries cfg"
    using read_fresh_complete(9) [OF rf assms(2)] read_fresh_pending(2) [OF rf] by blast
  have wq: "idle s \<longleftrightarrow> promise s \<noteq> Pending"
    using wi fresh_complete(1) [OF wf assms(1)] fresh_pending(1) [OF wf] by auto
  have rq: "read_idle s' \<longleftrightarrow> rd_promise s' \<noteq> Pending"
    using ri read_fresh_complete(1) [OF rf assms(2)] read_fresh_pending(1) [OF rf] by auto
  have wc: "idle s \<longrightarrow>
             promise s = Resolved (this_results s) \<and>
             w_batches (this_results s) = results s \<and>
             distinct (attempted s) \<and> set (attempted s) = {0 ..< totalBatches cfg} \<and>
             int (length (results s)) = totalBatches cfg \<and>
             int (length (filter success (results s))) + int (w_errors (this_results s))
               = totalBatches cfg"
    using wi fresh_complete [OF wf assms(1)] by blast
  have rc: "read_idle s' \<longrightarrow>
             rd_promise s' = Resolved (rd_this_results s') \<and>
             r_queries (rd_this_results s') = rd_results s' \<and>
             distinct (read_attempted s') \<and> set (read_attempted s') = {0 ..< totalQueries cfg} \<and>
             int (length (rd_results s')) = totalQueries cfg \<and>
             r_totalQueries (rd_this_results s') = length (filter q_success (rd_results s')) \<and>
             int (r_totalQueries (rd_this_results s')) + int (r_errors (rd_this_results s'))
               = totalQueries cfg"
  proof
    assume "read_idle s'"
    with ri have full: "\<not> int (length (rd_results s')) < totalQueries cfg" by simp
    note c = read_fresh_complete [OF rf assms(2) full]
    from c(2,3) have tq: "r_totalQueries (rd_this_results s') = length (filter q_success (rd_results s'))"
      unfolding read_completion_form_def by simp
    with c show "rd_promise s' = Resolved (rd_this_results s') \<and>
             r_queries (rd_this_results s') = rd_results s' \<and>
             distinct (read_attempted s') \<and> set (read_attempted s') = {0 ..< totalQueries cfg} \<and>
             int (length (rd_results s')) = totalQueries cfg \<and>
             r_totalQueries (rd_this_results s') = length (filter q_success (rd_results s')) \<and>
             int (r_totalQueries (rd_this_results s')) + int (r_errors (rd_this_results s'))
               = totalQueries cfg" by simp
  qed
  from wl wp wq wc rl rp rq rc show ?thesis by blast
qed

theorem C1_every_index_attempted_once_witness:
  "1 \<le> totalBatches cfg_small \<and> 1 \<le> totalQueries cfg_small \<and> 1 \<le> concurrency cfg_small \<and>
   exec cfg_small evs_small (runConcurrentWrites cfg_small WriteTest_results 0) = Some st_small \<and>
   read_exec cfg_small revs_small (runConcurrentReads cfg_small ReadTest_results 0) = Some rst_small \<and>
   idle st_small \<and> promise st_small = Resolved (this_results st_small) \<and>
   attempted st_small = [0, 1, 2] \<and> set (attempted st_small) = {0 ..< totalBatches cfg_small} \<and>
   length (filter success (results st_small)) = 2 \<and> w_errors (this_results st_small) = 1 \<and>
   read_idle rst_small \<and> rd_promise rst_small = Resolved (rd_this_results rst_small) \<and>
   read_attempted rst_small = [0, 1, 2] \<and>
   set (read_attempted rst_small) = {0 ..< totalQueries cfg_small} \<and>
   r_totalQueries (rd_this_results rst_small) = 2 \<and> r_errors (rd_this_results rst_small) = 1"
proof -
  have h: "1 \<le> totalBatches cfg_small" "1 \<le> totalQueries cfg_small" "1 \<le> concurrency cfg_small"
    by (simp_all add: sample_totals)
  have wi: "idle st_small"
    by (simp add: idle_def sample_states sample_defs write_run_defs)
  have ri: "read_idle rst_small"
    by (simp add: read_idle_def sample_states sample_defs read_run_defs)
  have wa: "attempted st_small = [0, 1, 2]" "length (filter success (results st_small)) = 2"
    "w_errors (this_results st_small) = 1"
    by (simp_all add: attempted_def sample_states sample_defs write_run_defs)
  have ra: "read_attempted rst_small = [0, 1, 2]" "r_totalQueries (rd_this_results rst_small) = 2"
    "r_errors (rd_this_results rst_small) = 1"
    by (simp_all add: read_attempted_def sample_states sample_defs read_run_defs)
  from C1_every_index_attempted_once [OF h st_small_run rst_small_run] wi ri
  have "promise st_small = Resolved (this_results st_small)"
    and "set (attempted st_small) = {0 ..< totalBatches cfg_small}"
    and "rd_promise rst_small = Resolved (rd_this_results rst_small)"
    and "set (read_attempted rst_small) = {0 ..< totalQueries cfg_small}"
    by blast+
  with h st_small_run rst_small_run wi ri wa ra show ?thesis by simp
qed

section \<open>The record of a failed operation\<close>

text \<open>
  Claim C2. When the backend operation fails, the executor returns a record (no exception
  leaves it) with \<open>success = false\<close>, \<open>unitsProcessed = 0\<close>, \<open>error\<close> set to the message and
  the latency up to the failure. \<open>executeQuery\<close> does so. \<open>executeBatch\<close> sets
  \<open>recordCount\<close> to the length of the batch it was given: for a batch of three records
  and a backend that rejects, in batch mode and in single-insert mode, the record is the
  one below, with \<open>recordCount = 3\<close>.
\<close>

theorem C2_failed_write_keeps_batch_length:
  "executeBatch db_down cfg_small [sample_message, sample_message, sample_message] 7 100 130 ''t130''
     = \<lparr>batchIndex = 7, recordCount = 3, latency = 30, success = False,
        error = Some ''connection lost'', timestamp = ''t130''\<rparr> \<and>
   executeBatch db_down cfg_five [sample_message, sample_message, sample_message] 7 100 130 ''t130''
     = \<lparr>batchIndex = 7, recordCount = 3, latency = 30, success = False,
        error = Some ''connection lost'', timestamp = ''t130''\<rparr> \<and>
   executeQuery db_down cfg_small ''user_7'' 7 100 130 ''t130''
     = \<lparr>queryIndex = 7, userId = ''user_7'', q_recordCount = 0, q_latency = 30,
        q_success = False, q_error = Some ''connection lost'', q_timestamp = ''t130''\<rparr>"
  by (simp add: executeBatch_def writeBatch_def executeQuery_def sample_defs)

section \<open>A configuration without work\<close>

text \<open>
  Claim C3, as amended. The claim says that with \<open>total \<le> 0\<close> the engine refuses to run
  and raises a configuration error. The code checks nothing. What holds, from any
  instance state: with \<open>totalBatches \<le> 0\<close> for a non-zero \<open>batchSize\<close> (for the read test
  \<open>totalQueries \<le> 0\<close>) the run
  queues no operation, so the only schedule is the empty one; no record is produced, the
  promise is never rejected and never resolved: no configuration error reaches the
  caller, and no result either.
\<close>

theorem C3_nonpositive_total_never_settles:
  "(batchSize cfg \<noteq> 0 \<and> totalBatches cfg \<le> 0 \<longrightarrow>
      idle (runConcurrentWrites cfg r0 t0) \<and>
      (\<forall>evs s. exec cfg evs (runConcurrentWrites cfg r0 t0) = Some s \<longrightarrow>
         evs = [] \<and> results s = [] \<and> promise s = Pending)) \<and>
   (totalQueries cfg \<le> 0 \<longrightarrow>
      read_idle (runConcurrentReads cfg q0 t1) \<and>
      (\<forall>revs s'. read_exec cfg revs (runConcurrentReads cfg q0 t1) = Some s' \<longrightarrow>
         revs = [] \<and> rd_results s' = [] \<and> rd_promise s' = Pending))"
proof (intro conjI impI allI)
  assume "batchSize cfg \<noteq> 0 \<and> totalBatches cfg \<le> 0"
  then have T: "totalBatches cfg \<le> 0" by simp
  show "idle (runConcurrentWrites cfg r0 t0)" using no_lanes [OF T] by (simp add: idle_def)
  fix evs s assume e: "exec cfg evs (runConcurrentWrites cfg r0 t0) = Some s"
  from exec_no_work [OF no_lanes [OF T] e]
  show "evs = []" "results s = []" "promise s = Pending"
    by (simp_all add: runConcurrentWrites_def)
next
  assume T: "totalQueries cfg \<le> 0"
  show "read_idle (runConcurrentReads cfg q0 t1)" using read_no_lanes [OF T] by (simp add: read_idle_def)
  fix revs s' assume e: "read_exec cfg revs (runConcurrentReads cfg q0 t1) = Some s'"
  from read_exec_no_work [OF read_no_lanes [OF T] e]
  show "revs = []" "rd_results s' = []" "rd_promise s' = Pending"
    by (simp_all add: runConcurrentReads_def)
qed

theorem C3_nonpositive_total_never_settles_witness:
  "batchSize cfg_empty \<noteq> 0 \<and> totalBatches cfg_empty \<le> 0 \<and> totalQueries cfg_empty \<le> 0 \<and>
   exec cfg_empty [] (runConcurrentWrites cfg_empty WriteTest_results 0)
     = Some (runConcurrentWrites cfg_empty WriteTest_results 0) \<and>
   read_exec cfg_empty [] (runConcurrentReads cfg_empty ReadTest_results 0)
     = Some (runConcurrentReads cfg_empty ReadTest_results 0) \<and>
   idle (runConcurrentWrites cfg_empty WriteTest_results 0) \<and>
   promise (runConcurrentWrites cfg_empty WriteTest_results 0) = Pending \<and>
   results (runConcurrentWrites cfg_empty WriteTest_results 0) = [] \<and>
   read_idle (runConcurrentReads cfg_empty ReadTest_results 0) \<and>
   rd_promise (runConcurrentReads cfg_empty ReadTest_results 0) = Pending \<and>
   rd_results (runConcurrentReads cfg_empty ReadTest_results 0) = []"
proof -
  have h: "batchSize cfg_empty \<noteq> 0" "totalBatches cfg_empty \<le> 0" "totalQueries cfg_empty \<le> 0"
    by (simp_all add: sample_totals) (simp add: cfg_empty_def)
  have e: "exec cfg_empty [] (runConcurrentWrites cfg_empty WriteTest_results 0)
     = Some (runConcurrentWrites cfg_empty WriteTest_results 0)"
    "read_exec cfg_empty [] (runConcurrentReads cfg_empty ReadTest_results 0)
     = Some (runConcurrentReads cfg_empty ReadTest_results 0)"
    by simp_all
  note t = C3_nonpositive_total_never_settles [of cfg_empty WriteTest_results 0 ReadTest_results 0]
  from t h e have
    "idle (runConcurrentWrites cfg_empty WriteTest_results 0)"
    "promise (runConcurrentWrites cfg_empty WriteTest_results 0) = Pending"
    "results (runConcurrentWrites cfg_empty WriteTest_results 0) = []"
    "read_idle (runConcurrentReads cfg_empty ReadTest_results 0)"
    "rd_promise (runConcurrentReads cfg_empty ReadTest_results 0) = Pending"
    "rd_results (runConcurrentReads cfg_empty ReadTest_results 0) = []"
    by blast+
  with h e show ?thesis by blast
qed

text \<open>The claim as stated fails for \<open>totalRecords = 0\<close> and for \<open>totalQueries = 0\<close>: the
  promise of the run is pending, not rejected, and the event loop has nothing to run for
  it.\<close>

theorem C3_no_configuration_error_counterexample:
  "totalRecords cfg_empty = 0 \<and> totalBatches cfg_empty = 0 \<and> totalQueries cfg_empty = 0 \<and>
   promise (runConcurrentWrites cfg_empty WriteTest_results 0) = Pending \<and>
   idle (runConcurrentWrites cfg_empty WriteTest_results 0) \<and>
   exec cfg_empty [Immediate sample_rnd 1] (runConcurrentWrites cfg_empty WriteTest_results 0) = None \<and>
   rd_promise (runConcurrentReads cfg_empty ReadTest_results 0) = Pending \<and>
   read_idle (runConcurrentReads cfg_empty ReadTest_results 0) \<and>
   read_exec cfg_empty [ReadImmediate ''user_7'' 1] (runConcurrentReads cfg_empty ReadTest_results 0)
     = None"
  by (simp add: sample_totals idle_def read_idle_def runConcurrentWrites_def runConcurrentReads_def)
     (simp add: sample_defs)

section \<open>The reported rate\<close>

text \<open>
  Claim C4, as amended. The claim says that the reported rate is
  \<open>totalUnits / wallClockMs * 1000\<close> and that it is treated as 0 when \<open>wallClockMs = 0\<close>.
  The code has no such guard, and the read test does not divide the rows it read. What
  holds for every value a run resolves with, from any instance state and for any non-zero
  batch size: when \<open>totalTime \<noteq> 0\<close> the write rate \<open>tps\<close> is
  \<open>totalRecords / totalTime * 1000\<close> and the read rate \<open>qps\<close> (queries per second) is
  \<open>totalQueries / totalTime * 1000\<close>, where \<open>totalQueries\<close> is the number of successful
  queries; when \<open>totalTime = 0\<close> the rate is \<open>Infinity\<close> for a positive numerator and
  \<open>NaN\<close> for a zero one.
\<close>

theorem C4_rate_without_zero_guard:
  assumes "batchSize cfg \<noteq> 0"
      and "exec cfg evs (runConcurrentWrites cfg r0 t0) = Some s"
      and "promise s = Resolved r"
      and "read_exec cfg revs (runConcurrentReads cfg q0 t1) = Some s'"
      and "rd_promise s' = Resolved q"
  shows "w_tps r =
           (if w_totalTime r \<noteq> 0
            then Finite (of_nat (w_totalRecords r) / of_int (w_totalTime r) * 1000)
            else if 0 < w_totalRecords r then Infinity else NaN) \<and>
         r_qps q =
           (if r_totalTime q \<noteq> 0
            then Finite (of_nat (r_totalQueries q) / of_int (r_totalTime q) * 1000)
            else if 0 < r_totalQueries q then Infinity else NaN) \<and>
         r_totalQueries q = length (filter q_success (r_queries q))"
proof -
  have "resolved_inv r0 s" using assms(2) by (rule resolved_inv_run)
  with assms(3) have w: "completion_form r" unfolding resolved_inv_def by simp
  have "read_resolved_inv q0 s'" using assms(4) by (rule read_resolved_inv_run)
  with assms(5) have q: "read_completion_form q" unfolding read_resolved_inv_def by simp
  from w have "w_tps r = js_times (js_div (int (w_totalRecords r)) (w_totalTime r)) 1000"
    unfolding completion_form_def by simp
  moreover from q have "r_qps q = js_times (js_div (int (r_totalQueries q)) (r_totalTime q)) 1000"
    and "r_totalQueries q = length (filter q_success (r_queries q))"
    unfolding read_completion_form_def by simp_all
  ultimately show ?thesis by (simp only: js_rate)
qed

theorem C4_rate_without_zero_guard_witness:
  "batchSize cfg_single \<noteq> 0 \<and>
   exec cfg_single evs_one_ok (runConcurrentWrites cfg_single (this_results st_first) 10)
     = Some st_second \<and>
   promise st_second = Resolved (this_results st_second) \<and>
   read_exec cfg_single revs_three_rows (runConcurrentReads cfg_single ReadTest_results 0)
     = Some rst_three_rows \<and>
   rd_promise rst_three_rows = Resolved (rd_this_results rst_three_rows) \<and>
   w_totalRecords (this_results st_second) = 2 \<and> w_totalTime (this_results st_second) = 3 \<and>
   w_tps (this_results st_second) = Finite (2 / 3 * 1000) \<and>
   r_totalRecordsRead (rd_this_results rst_three_rows) = 3 \<and>
   r_totalQueries (rd_this_results rst_three_rows) = 1 \<and>
   r_totalTime (rd_this_results rst_three_rows) = 4 \<and>
   r_qps (rd_this_results rst_three_rows) = Finite 250"
proof -
  have a: "promise st_second = Resolved (this_results st_second)"
    "w_totalRecords (this_results st_second) = 2" "w_totalTime (this_results st_second) = 3"
    by (simp_all add: sample_states sample_defs write_run_defs)
  have b: "rd_promise rst_three_rows = Resolved (rd_this_results rst_three_rows)"
    "r_totalQueries (rd_this_results rst_three_rows) = 1"
    "r_totalTime (rd_this_results rst_three_rows) = 4"
    "r_totalRecordsRead (rd_this_results rst_three_rows) = 3"
    by (simp_all add: sample_states sample_defs read_run_defs)
  have n: "batchSize cfg_single \<noteq> 0" by (simp add: cfg_single_def)
  note t = C4_rate_without_zero_guard [OF n st_second_run a(1) rst_three_rows_run b(1)]
  from t a(2,3) have c: "w_tps (this_results st_second) = Finite (2 / 3 * 1000)" by simp
  from t b(2,3) have d: "r_qps (rd_this_results rst_three_rows) = Finite 250" by simp
  from n st_second_run rst_three_rows_run a b c d show ?thesis by blast
qed

text \<open>The claim as stated fails in two ways. A write run that completes within the
  millisecond in which it started writes one batch of two records; \<open>totalTime\<close> is 0 and
  the reported rate is \<open>Infinity\<close>, not 0. A read run of one query that finds three rows
  after four milliseconds reports the rate 250, that of one query, and not 750, the rate
  \<open>totalUnits / wallClockMs * 1000\<close> of the three rows it read.\<close>

theorem C4_rate_zero_time_counterexample:
  "exec cfg_single evs_instant (runConcurrentWrites cfg_single WriteTest_results 0) = Some st_instant \<and>
   promise st_instant = Resolved (this_results st_instant) \<and>
   w_totalRecords (this_results st_instant) = 2 \<and>
   w_totalTime (this_results st_instant) = 0 \<and>
   w_tps (this_results st_instant) = Infinity \<and>
   w_tps (this_results st_instant) \<noteq> Finite 0 \<and>
   read_exec cfg_single revs_three_rows (runConcurrentReads cfg_single ReadTest_results 0)
     = Some rst_three_rows \<and>
   rd_promise rst_three_rows = Resolved (rd_this_results rst_three_rows) \<and>
   r_totalRecordsRead (rd_this_results rst_three_rows) = 3 \<and>
   r_totalQueries (rd_this_results rst_three_rows) = 1 \<and>
   r_totalTime (rd_this_results rst_three_rows) = 4 \<and>
   r_qps (rd_this_results rst_three_rows) = Finite 250 \<and>
   r_qps (rd_this_results rst_three_rows)
     \<noteq> js_times (js_div (int (r_totalRecordsRead (rd_this_results rst_three_rows)))
                          (r_totalTime (rd_this_results rst_three_rows))) 1000 \<and>
   js_times (js_div 3 4) 1000 = Finite 750"
proof -
  have a: "promise st_instant = Resolved (this_results st_instant)"
    "w_totalRecords (this_results st_instant) = 2" "w_totalTime (this_results st_instant) = 0"
    "w_tps (this_results st_instant) = Infinity"
    by (simp_all add: sample_states sample_defs write_run_defs)
  have b: "rd_promise rst_three_rows = Resolved (rd_this_results rst_three_rows)"
    "r_totalRecordsRead (rd_this_results rst_three_rows) = 3"
    "r_totalQueries (rd_this_results rst_three_rows) = 1"
    "r_totalTime (rd_this_results rst_three_rows) = 4"
    "r_qps (rd_this_results rst_three_rows) = Finite 250"
    by (simp_all add: sample_states sample_defs read_run_defs)
  have c: "js_times (js_div 3 4) 1000 = Finite 750" by (simp add: js_div_def js_times_def)
  from st_instant_run rst_three_rows_run a b c show ?thesis by simp
qed

section \<open>Latency percentiles\<close>

text \<open>
  Claim C5, as amended. The claim says that the percentile computation takes the
  latencies of the successful records, sorts them ascending, returns for percentile \<open>p\<close>
  the element at index \<open>floor(n * p)\<close> clamped to \<open>[0, n-1]\<close>, and yields 0 for all three
  percentiles when \<open>n = 0\<close>. The code computes nothing when \<open>n = 0\<close>. What holds: for
  \<open>n > 0\<close> the three values are the elements of the sorted successful latencies at
  \<open>floor(n * p)\<close>, an index that never leaves \<open>[0, n-1]\<close> and so equals its clamped value;
  for \<open>n = 0\<close> there is no percentile at all. For the latencies 10, 20, 30, 40, 50, in
  any order, \<open>p50\<close> is 30 and \<open>p95\<close> and \<open>p99\<close> are 50.
\<close>

theorem C5_percentiles_by_index:
  "writeLatencyPercentiles wr =
     (let sorted = sort (map latency (filter success (w_batches wr))); n = length sorted
      in if n = 0 then None
         else Some (Some (sorted ! min (n - 1) (n * 50 div 100)),
                    Some (sorted ! min (n - 1) (n * 95 div 100)),
                    Some (sorted ! min (n - 1) (n * 99 div 100)))) \<and>
   readLatencyPercentiles rr =
     (let sorted = sort (map q_latency (filter q_success (r_queries rr))); n = length sorted
      in if n = 0 then None
         else Some (Some (sorted ! min (n - 1) (n * 50 div 100)),
                    Some (sorted ! min (n - 1) (n * 95 div 100)),
                    Some (sorted ! min (n - 1) (n * 99 div 100)))) \<and>
   latencyPercentiles [10, 20, 30, 40, 50] = Some (Some 30, Some 50, Some 50) \<and>
   latencyPercentiles [50, 10, 40, 20, 30] = Some (Some 30, Some 50, Some 50)"
proof -
  have "latencyPercentiles [10, 20, 30, 40, 50] = Some (Some 30, Some 50, Some 50)"
    "latencyPercentiles [50, 10, 40, 20, 30] = Some (Some 30, Some 50, Some 50)"
    by (simp_all add: latencyPercentiles_def js_index_def percentileIndex_def)
  then show ?thesis
    unfolding writeLatencyPercentiles_def readLatencyPercentiles_def
    using latencyPercentiles_eq by simp
qed

theorem C5_percentiles_by_index_witness:
  "map latency (filter success (w_batches (this_results st_small))) = [4, 2] \<and>
   writeLatencyPercentiles (this_results st_small) = Some (Some 4, Some 4, Some 4) \<and>
   map q_latency (filter q_success (r_queries (rd_this_results rst_small))) = [4, 2] \<and>
   readLatencyPercentiles (rd_this_results rst_small) = Some (Some 4, Some 4, Some 4)"
proof -
  have a: "map latency (filter success (w_batches (this_results st_small))) = [4, 2]"
    by (simp add: sample_states sample_defs write_run_defs)
  have b: "map q_latency (filter q_success (r_queries (rd_this_results rst_small))) = [4, 2]"
    by (simp add: sample_states sample_defs read_run_defs)
  note t = C5_percentiles_by_index [of "this_results st_small" "rd_this_results rst_small"]
  from t a have "writeLatencyPercentiles (this_results st_small) = Some (Some 4, Some 4, Some 4)"
    by simp
  moreover from t b
  have "readLatencyPercentiles (rd_this_results rst_small) = Some (Some 4, Some 4, Some 4)"
    by simp
  ultimately show ?thesis using a b by blast
qed

text \<open>The claim as stated fails when no record succeeded: after the run in which all
  five operations failed, and on a new read test, the reporter has no percentiles, not the
  triple of zeros.\<close>

theorem C5_no_percentiles_without_success_counterexample:
  "filter success (w_batches (this_results st_five_failing)) = [] \<and>
   writeLatencyPercentiles (this_results st_five_failing) = None \<and>
   writeLatencyPercentiles (this_results st_five_failing) \<noteq> Some (Some 0, Some 0, Some 0) \<and>
   readLatencyPercentiles ReadTest_results = None \<and>
   readLatencyPercentiles ReadTest_results \<noteq> Some (Some 0, Some 0, Some 0)"
proof -
  have "filter success (w_batches (this_results st_five_failing)) = []"
    by (simp add: sample_states sample_defs write_run_defs)
  then show ?thesis
    by (simp add: writeLatencyPercentiles_def readLatencyPercentiles_def latencyPercentiles_def
        ReadTest_results_def)
qed

section \<open>Work is striped over the lanes\<close>

text \<open>
  Claim C6. For \<open>T \<ge> 1\<close> and \<open>C \<ge> 1\<close> the partition is deterministic striping: index
  \<open>i\<close> is handled by lane \<open>i mod min(C, T)\<close>, lane \<open>l\<close> is assigned exactly the indices
  \<open>l, l + stride, ...\<close> below \<open>T\<close>, and no index moves to another lane.

  The chain of calls that starts at \<open>l\<close> visits exactly the indices below \<open>T\<close> whose lane
  is \<open>l\<close>. In every state that a schedule reaches (from any instance state) no index
  occurs twice among the recorded, in-flight and queued ones, and each of them lies on
  the chain of its own lane: it was queued by the initial loop, or by the completion of
  \<open>i - concurrency\<close>, an index of the same lane.
\<close>

theorem C6_striped_lanes:
  assumes "1 \<le> totalBatches cfg" and "1 \<le> totalQueries cfg" and "1 \<le> concurrency cfg"
      and "exec cfg evs (runConcurrentWrites cfg r0 t0) = Some s"
      and "read_exec cfg revs (runConcurrentReads cfg q0 t1) = Some s'"
  shows "((\<forall>l. 0 \<le> l \<and> l < min (concurrency cfg) (totalBatches cfg) \<longrightarrow>
             set (stride_chain (totalBatches cfg) (concurrency cfg) l)
               = {i. 0 \<le> i \<and> i < totalBatches cfg \<and>
                     lane_of (totalBatches cfg) (concurrency cfg) i = l}) \<and>
          distinct (attempted s @ inflight s @ immediates s) \<and>
          (\<forall>i \<in> set (attempted s @ inflight s @ immediates s).
             i \<in> set (stride_chain (totalBatches cfg) (concurrency cfg)
                         (lane_of (totalBatches cfg) (concurrency cfg) i)) \<and>
             (i < min (concurrency cfg) (totalBatches cfg) \<or>
              (i - concurrency cfg \<in> set (attempted s) \<and>
               lane_of (totalBatches cfg) (concurrency cfg) (i - concurrency cfg)
                 = lane_of (totalBatches cfg) (concurrency cfg) i)))) \<and>
         ((\<forall>l. 0 \<le> l \<and> l < min (concurrency cfg) (totalQueries cfg) \<longrightarrow>
             set (stride_chain (totalQueries cfg) (concurrency cfg) l)
               = {i. 0 \<le> i \<and> i < totalQueries cfg \<and>
                     lane_of (totalQueries cfg) (concurrency cfg) i = l}) \<and>
          distinct (read_attempted s' @ read_inflight s' @ rd_immediates s') \<and>
          (\<forall>i \<in> set (read_attempted s' @ read_inflight s' @ rd_immediates s').
             i \<in> set (stride_chain (totalQueries cfg) (concurrency cfg)
                         (lane_of (totalQueries cfg) (concurrency cfg) i)) \<and>
             (i < min (concurrency cfg) (totalQueries cfg) \<or>
              (i - concurrency cfg \<in> set (read_attempted s') \<and>
               lane_of (totalQueries cfg) (concurrency cfg) (i - concurrency cfg)
                 = lane_of (totalQueries cfg) (concurrency cfg) i))))"
proof -
  let ?C = "concurrency cfg"
  have wok: "lanes_ok (totalBatches cfg) ?C (attempted s) (inflight s @ immediates s)"
    using sched_inv_run [OF assms(4)] unfolding sched_inv_def by simp
  have rok: "lanes_ok (totalQueries cfg) ?C (read_attempted s') (read_inflight s' @ rd_immediates s')"
    using read_sched_inv_run [OF assms(5)] unfolding read_sched_inv_def by simp
  have w1: "\<forall>l. 0 \<le> l \<and> l < min ?C (totalBatches cfg) \<longrightarrow>
             set (stride_chain (totalBatches cfg) ?C l)
               = {i. 0 \<le> i \<and> i < totalBatches cfg \<and> lane_of (totalBatches cfg) ?C i = l}"
    using stride_chain_lane [OF assms(3)] by blast
  have r1: "\<forall>l. 0 \<le> l \<and> l < min ?C (totalQueries cfg) \<longrightarrow>
             set (stride_chain (totalQueries cfg) ?C l)
               = {i. 0 \<le> i \<and> i < totalQueries cfg \<and> lane_of (totalQueries cfg) ?C i = l}"
    using stride_chain_lane [OF assms(3)] by blast
  have w2: "distinct (attempted s @ inflight s @ immediates s)"
    using wok unfolding lanes_ok_def by simp
  have r2: "distinct (read_attempted s' @ read_inflight s' @ rd_immediates s')"
    using rok unfolding lanes_ok_def by simp
  have w3: "\<forall>i \<in> set (attempted s @ inflight s @ immediates s).
             i \<in> set (stride_chain (totalBatches cfg) ?C (lane_of (totalBatches cfg) ?C i)) \<and>
             (i < min ?C (totalBatches cfg) \<or>
              (i - ?C \<in> set (attempted s) \<and>
               lane_of (totalBatches cfg) ?C (i - ?C) = lane_of (totalBatches cfg) ?C i))"
    using lanes_ok_chain [OF wok assms(3)] by simp
  have r3: "\<forall>i \<in> set (read_attempted s' @ read_inflight s' @ rd_immediates s').
             i \<in> set (stride_chain (totalQueries cfg) ?C (lane_of (totalQueries cfg) ?C i)) \<and>
             (i < min ?C (totalQueries cfg) \<or>
              (i - ?C \<in> set (read_attempted s') \<and>
               lane_of (totalQueries cfg) ?C (i - ?C) = lane_of (totalQueries cfg) ?C i))"
    using lanes_ok_chain [OF rok assms(3)] by simp
  from w1 w2 w3 r1 r2 r3 show ?thesis by blast
qed

theorem C6_striped_lanes_witness:
  "1 \<le> totalBatches cfg_small \<and> 1 \<le> totalQueries cfg_small \<and> 1 \<le> concurrency cfg_small \<and>
   exec cfg_small evs_small (runConcurrentWrites cfg_small WriteTest_results 0) = Some st_small \<and>
   read_exec cfg_small revs_small (runConcurrentReads cfg_small ReadTest_results 0) = Some rst_small \<and>
   attempted st_small @ inflight st_small @ immediates st_small = [0, 1, 2] \<and>
   read_attempted rst_small @ read_inflight rst_small @ rd_immediates rst_small = [0, 1, 2] \<and>
   stride_chain (totalBatches cfg_small) (concurrency cfg_small) 0 = [0, 2] \<and>
   stride_chain (totalBatches cfg_small) (concurrency cfg_small) 1 = [1] \<and>
   map (lane_of (totalBatches cfg_small) (concurrency cfg_small)) [0, 1, 2] = [0, 1, 0] \<and>
   set (stride_chain (totalBatches cfg_small) (concurrency cfg_small) 0)
     = {i. 0 \<le> i \<and> i < totalBatches cfg_small \<and>
           lane_of (totalBatches cfg_small) (concurrency cfg_small) i = 0} \<and>
   distinct (attempted st_small @ inflight st_small @ immediates st_small) \<and>
   distinct (read_attempted rst_small @ read_inflight rst_small @ rd_immediates rst_small)"
proof -
  have h: "1 \<le> totalBatches cfg_small" "1 \<le> totalQueries cfg_small" "1 \<le> concurrency cfg_small"
    by (simp_all add: sample_totals)
  have a: "attempted st_small @ inflight st_small @ immediates st_small = [0, 1, 2]"
    by (simp add: attempted_def inflight_def sample_states sample_defs write_run_defs)
  have b: "read_attempted rst_small @ read_inflight rst_small @ rd_immediates rst_small = [0, 1, 2]"
    by (simp add: read_attempted_def read_inflight_def sample_states sample_defs read_run_defs)
  have c: "stride_chain (totalBatches cfg_small) (concurrency cfg_small) 0 = [0, 2]"
    "stride_chain (totalBatches cfg_small) (concurrency cfg_small) 1 = [1]"
    by (simp_all add: sample_totals stride_chain_small)
  have l: "map (lane_of (totalBatches cfg_small) (concurrency cfg_small)) [0, 1, 2] = [0, 1, 0]"
    by (simp add: sample_totals lane_of_def)
  have z: "0 \<le> (0::int) \<and> 0 < min (concurrency cfg_small) (totalBatches cfg_small)"
    by (simp add: sample_totals)
  note t = C6_striped_lanes [OF h st_small_run rst_small_run]
  from t z have
    "set (stride_chain (totalBatches cfg_small) (concurrency cfg_small) 0)
     = {i. 0 \<le> i \<and> i < totalBatches cfg_small \<and>
           lane_of (totalBatches cfg_small) (concurrency cfg_small) i = 0}" by blast
  moreover from t have "distinct (attempted st_small @ inflight st_small @ immediates st_small)"
    "distinct (read_attempted rst_small @ read_inflight rst_small @ rd_immediates rst_small)"
    by blast+
  ultimately show ?thesis using h st_small_run rst_small_run a b c l by simp
qed

section \<open>A run in which every operation fails\<close>

text \<open>
  Claim C7, as amended. The claim says that a run in which every operation fails
  (\<open>errorCount = total\<close>, no success) still completes and returns a well-formed result
  with \<open>avgLatency = 0\<close> and a rate computed from the elapsed wall-clock time. The rate is
  \<open>(0 / totalTime) * 1000\<close> with no guard, which is not a number when no time has
  elapsed. What holds for the write run on a new instance: every schedule is finite, and
  once nothing is queued or in flight the promise holds \<open>this.results\<close> with all
  \<open>totalBatches\<close> records, \<open>errors = totalBatches\<close>, no records counted and
  \<open>avgLatency = 0\<close>; \<open>totalTime\<close> is the clock reading taken when the last record
  arrived minus the one taken at the start of the run; the rate \<open>tps\<close> is 0 when
  \<open>totalTime\<close> is not 0, and \<open>NaN\<close> when it is 0.
\<close>

theorem C7_all_failures_complete:
  assumes "1 \<le> totalBatches cfg" and "1 \<le> concurrency cfg"
      and "exec cfg evs (runConcurrentWrites cfg WriteTest_results t0) = Some s"
      and "idle s"
      and "\<forall>b \<in> set (results s). \<not> success b"
  shows "int (length evs) \<le> 2 * totalBatches cfg \<and>
         promise s = Resolved (this_results s) \<and>
         w_batches (this_results s) = results s \<and>
         int (length (w_batches (this_results s))) = totalBatches cfg \<and>
         int (w_errors (this_results s)) = totalBatches cfg \<and>
         filter success (w_batches (this_results s)) = [] \<and>
         w_totalRecords (this_results s) = 0 \<and>
         w_avgLatency (this_results s) = Finite 0 \<and>
         (\<exists>evs' i db endT stamp now.
            evs = evs' @ [Settled i db endT stamp now] \<and>
            w_totalTime (this_results s) = now - t0) \<and>
         w_tps (this_results s) = (if w_totalTime (this_results s) \<noteq> 0 then Finite 0 else NaN)"
proof -
  have fi: "fresh_inv cfg s" using assms(1,2,3) by (rule fresh_inv_run)
  have full: "\<not> int (length (results s)) < totalBatches cfg"
    using fresh_pending(2) [OF fi] assms(4) by blast
  note c = fresh_complete [OF fi assms(1) full]
  have nos: "filter success (results s) = []" using assms(5) by (auto simp: filter_empty_conv)
  have ai: "accum_inv WriteTest_results s" using fi unfolding fresh_inv_def by simp
  then have tot: "w_totalRecords (this_results s) = 0"
    unfolding accum_inv_def using nos by (simp add: WriteTest_results_def)
  have err: "int (w_errors (this_results s)) = totalBatches cfg" using c(8) nos by simp
  have avg: "w_avgLatency (this_results s) = Finite 0" using c(4) nos by simp
  have "w_tps (this_results s) = js_times (js_div 0 (w_totalTime (this_results s))) 1000"
    using c(3) tot unfolding completion_form_def by simp
  then have tps: "w_tps (this_results s)
                    = (if w_totalTime (this_results s) \<noteq> 0 then Finite 0 else NaN)"
    by (simp add: js_div_def js_times_def)
  have len: "int (length evs) \<le> 2 * totalBatches cfg"
    using run_length [OF assms(3)] assms(1) by simp
  have tim: "\<exists>evs' i db endT stamp now.
            evs = evs' @ [Settled i db endT stamp now] \<and>
            w_totalTime (this_results s) = now - t0"
    using assms(1,2,3,4) by (rule fresh_final_time)
  have bl: "int (length (w_batches (this_results s))) = totalBatches cfg"
    using c(2,7) by simp
  have bf: "filter success (w_batches (this_results s)) = []" using c(2) nos by simp
  from len c(1,2) bl err bf tot avg tim tps show ?thesis by blast
qed

theorem C7_all_failures_complete_witness:
  "1 \<le> totalBatches cfg_five \<and> 1 \<le> concurrency cfg_five \<and>
   exec cfg_five evs_five_failing (runConcurrentWrites cfg_five WriteTest_results 0)
     = Some st_five_failing \<and>
   idle st_five_failing \<and>
   map success (results st_five_failing) = [False, False, False, False, False] \<and>
   promise st_five_failing = Resolved (this_results st_five_failing) \<and>
   w_errors (this_results st_five_failing) = 5 \<and>
   filter success (w_batches (this_results st_five_failing)) = [] \<and>
   w_avgLatency (this_results st_five_failing) = Finite 0 \<and>
   w_totalTime (this_results st_five_failing) = 6 - 0 \<and>
   w_tps (this_results st_five_failing) = Finite 0"
proof -
  have h: "1 \<le> totalBatches cfg_five" "1 \<le> concurrency cfg_five"
    by (simp_all add: sample_totals)
  have i: "idle st_five_failing"
    by (simp add: idle_def sample_states sample_defs write_run_defs)
  have m: "map success (results st_five_failing) = [False, False, False, False, False]"
    by (simp add: sample_states sample_defs write_run_defs)
  have a: "\<forall>b \<in> set (results st_five_failing). \<not> success b"
  proof
    fix b assume "b \<in> set (results st_five_failing)"
    then have "success b \<in> set (map success (results st_five_failing))" by simp
    with m show "\<not> success b" by simp
  qed
  have t: "w_totalTime (this_results st_five_failing) = 6 - 0"
    by (simp add: sample_states sample_defs write_run_defs)
  note c = C7_all_failures_complete [OF h st_five_failing_run i a]
  from c have p: "promise st_five_failing = Resolved (this_results st_five_failing)"
    and e: "int (w_errors (this_results st_five_failing)) = totalBatches cfg_five"
    and f: "filter success (w_batches (this_results st_five_failing)) = []"
    and v: "w_avgLatency (this_results st_five_failing) = Finite 0"
    and r: "w_tps (this_results st_five_failing)
              = (if w_totalTime (this_results st_five_failing) \<noteq> 0 then Finite 0 else NaN)"
    by blast+
  from e have e5: "w_errors (this_results st_five_failing) = 5" by (simp add: sample_totals)
  from r t have r0: "w_tps (this_results st_five_failing) = Finite 0" by simp
  from h st_five_failing_run i m p e5 f v t r0 show ?thesis by blast
qed

text \<open>The claim as stated fails for a run whose only batch fails within the millisecond
  in which the run started: the run completes with one error and no success, \<open>totalTime\<close>
  is 0 and the reported rate is \<open>NaN\<close>, not a number computed from the elapsed time.\<close>

theorem C7_zero_time_rate_counterexample:
  "1 \<le> totalBatches cfg_single \<and> 1 \<le> concurrency cfg_single \<and>
   exec cfg_single evs_failing_instant (runConcurrentWrites cfg_single WriteTest_results 0)
     = Some st_failing_instant \<and>
   idle st_failing_instant \<and>
   map success (results st_failing_instant) = [False] \<and>
   promise st_failing_instant = Resolved (this_results st_failing_instant) \<and>
   w_errors (this_results st_failing_instant) = 1 \<and>
   w_avgLatency (this_results st_failing_instant) = Finite 0 \<and>
   w_totalTime (this_results st_failing_instant) = 0 \<and>
   w_tps (this_results st_failing_instant) = NaN \<and>
   w_tps (this_results st_failing_instant) \<noteq> Finite 0"
proof -
  have h: "1 \<le> totalBatches cfg_single" "1 \<le> concurrency cfg_single"
    by (simp_all add: sample_totals)
  have a: "idle st_failing_instant"
    "map success (results st_failing_instant) = [False]"
    "promise st_failing_instant = Resolved (this_results st_failing_instant)"
    "w_errors (this_results st_failing_instant) = 1"
    "w_avgLatency (this_results st_failing_instant) = Finite 0"
    "w_totalTime (this_results st_failing_instant) = 0"
    "w_tps (this_results st_failing_instant) = NaN"
    by (simp_all add: idle_def sample_states sample_defs write_run_defs)
  from h st_failing_instant_run a show ?thesis by simp
qed

section \<open>In-flight operations are bounded\<close>

text \<open>
  Claim C8. At every instant of a run the number of operations in flight is at most the
  effective concurrency \<open>min(C, total)\<close>; a lane never has more than one operation queued
  or in flight, and an index \<open>i\<close> is only dispatched when the lane's previous index
  \<open>i - C\<close> has produced a record. The statement holds in every state that any schedule
  of the write run and of the read run reaches, from any instance state and for any
  non-zero batch size; \<open>activeTasks\<close> is the code's own counter of operations in flight.
\<close>

theorem C8_inflight_bounded:
  assumes "batchSize cfg \<noteq> 0"
      and "exec cfg evs (runConcurrentWrites cfg r0 t0) = Some s"
      and "read_exec cfg revs (runConcurrentReads cfg q0 t1) = Some s'"
  shows "(activeTasks s = int (length (awaiting s)) \<and>
          int (length (awaiting s)) \<le> max 0 (min (concurrency cfg) (totalBatches cfg)) \<and>
          (\<forall>i \<in> set (inflight s @ immediates s). \<forall>j \<in> set (inflight s @ immediates s).
              lane_of (totalBatches cfg) (concurrency cfg) i = lane_of (totalBatches cfg) (concurrency cfg) j
                \<longrightarrow> i = j) \<and>
          (\<forall>i \<in> set (inflight s @ immediates s).
              concurrency cfg \<le> i \<longrightarrow> i - concurrency cfg \<in> set (attempted s))) \<and>
         (rd_activeTasks s' = int (length (rd_awaiting s')) \<and>
          int (length (rd_awaiting s')) \<le> max 0 (min (concurrency cfg) (totalQueries cfg)) \<and>
          (\<forall>i \<in> set (read_inflight s' @ rd_immediates s'). \<forall>j \<in> set (read_inflight s' @ rd_immediates s').
              lane_of (totalQueries cfg) (concurrency cfg) i = lane_of (totalQueries cfg) (concurrency cfg) j
                \<longrightarrow> i = j) \<and>
          (\<forall>i \<in> set (read_inflight s' @ rd_immediates s').
              concurrency cfg \<le> i \<longrightarrow> i - concurrency cfg \<in> set (read_attempted s')))"
proof -
  have w: "sched_inv cfg s" using assms(2) by (rule sched_inv_run)
  have r: "read_sched_inv cfg s'" using assms(3) by (rule read_sched_inv_run)
  from w have wok: "lanes_ok (totalBatches cfg) (concurrency cfg) (attempted s) (inflight s @ immediates s)"
    and wact: "activeTasks s = int (length (awaiting s))" unfolding sched_inv_def by auto
  from r have rok: "lanes_ok (totalQueries cfg) (concurrency cfg) (read_attempted s') (read_inflight s' @ rd_immediates s')"
    and ract: "rd_activeTasks s' = int (length (rd_awaiting s'))" unfolding read_sched_inv_def by auto
  have wb: "int (length (awaiting s)) \<le> max 0 (min (concurrency cfg) (totalBatches cfg))"
    using lanes_ok_inflight_bound [OF wok] by (simp add: inflight_def)
  have rb: "int (length (rd_awaiting s')) \<le> max 0 (min (concurrency cfg) (totalQueries cfg))"
    using lanes_ok_inflight_bound [OF rok] by (simp add: read_inflight_def)
  have wp: "\<forall>i \<in> set (inflight s @ immediates s).
              concurrency cfg \<le> i \<longrightarrow> i - concurrency cfg \<in> set (attempted s)"
    using wok unfolding lanes_ok_def by auto
  have rp: "\<forall>i \<in> set (read_inflight s' @ rd_immediates s').
              concurrency cfg \<le> i \<longrightarrow> i - concurrency cfg \<in> set (read_attempted s')"
    using rok unfolding lanes_ok_def by auto
  show ?thesis
    using wact wb lanes_ok_one_per_lane [OF wok] wp ract rb lanes_ok_one_per_lane [OF rok] rp
    by blast
qed

theorem C8_inflight_bounded_witness:
  "batchSize cfg_small \<noteq> 0 \<and>
   exec cfg_small evs_two_started (runConcurrentWrites cfg_small WriteTest_results 0)
     = Some (write_after cfg_small WriteTest_results 0 evs_two_started) \<and>
   read_exec cfg_small revs_two_started (runConcurrentReads cfg_small ReadTest_results 0)
     = Some (read_after cfg_small ReadTest_results 0 revs_two_started) \<and>
   inflight (write_after cfg_small WriteTest_results 0 evs_two_started) = [0, 1] \<and>
   activeTasks (write_after cfg_small WriteTest_results 0 evs_two_started) = 2 \<and>
   min (concurrency cfg_small) (totalBatches cfg_small) = 2 \<and>
   read_inflight (read_after cfg_small ReadTest_results 0 revs_two_started) = [0, 1] \<and>
   rd_activeTasks (read_after cfg_small ReadTest_results 0 revs_two_started) = 2 \<and>
   int (length (awaiting (write_after cfg_small WriteTest_results 0 evs_two_started)))
     \<le> max 0 (min (concurrency cfg_small) (totalBatches cfg_small)) \<and>
   int (length (rd_awaiting (read_after cfg_small ReadTest_results 0 revs_two_started)))
     \<le> max 0 (min (concurrency cfg_small) (totalQueries cfg_small))"
proof -
  have h1: "exec cfg_small evs_two_started (runConcurrentWrites cfg_small WriteTest_results 0)
     = Some (write_after cfg_small WriteTest_results 0 evs_two_started)"
    by (simp add: write_after_def sample_defs write_run_defs)
  have h2: "read_exec cfg_small revs_two_started (runConcurrentReads cfg_small ReadTest_results 0)
     = Some (read_after cfg_small ReadTest_results 0 revs_two_started)"
    by (simp add: read_after_def sample_defs read_run_defs)
  have a: "inflight (write_after cfg_small WriteTest_results 0 evs_two_started) = [0, 1]"
    "activeTasks (write_after cfg_small WriteTest_results 0 evs_two_started) = 2"
    by (simp_all add: write_after_def inflight_def sample_defs write_run_defs)
  have b: "read_inflight (read_after cfg_small ReadTest_results 0 revs_two_started) = [0, 1]"
    "rd_activeTasks (read_after cfg_small ReadTest_results 0 revs_two_started) = 2"
    by (simp_all add: read_after_def read_inflight_def sample_defs read_run_defs)
  have c: "min (concurrency cfg_small) (totalBatches cfg_small) = 2"
    by (simp add: sample_defs totalBatches_div)
  have n: "batchSize cfg_small \<noteq> 0" by (simp add: cfg_small_def)
  from C8_inflight_bounded [OF n h1 h2] n h1 h2 a b c show ?thesis by simp
qed

section \<open>Batch sizes add up to the configured total\<close>

text \<open>
  Claim C9. For \<open>totalRecords \<ge> 1\<close> and \<open>batchSize \<ge> 1\<close>, with
  \<open>totalBatches = ceil(totalRecords / batchSize)\<close>: the size
  \<open>min(batchSize, totalRecords - batchIndex * batchSize)\<close> is positive for every batch index
  below \<open>totalBatches\<close>, the sizes sum to \<open>totalRecords\<close>, and so does the number of
  records that \<open>generateBatch\<close> produces for all batches, also when \<open>batchSize\<close> does not
  divide \<open>totalRecords\<close>.
\<close>

theorem C9_batch_sizes_cover_total:
  assumes "1 \<le> totalRecords cfg" and "1 \<le> batchSize cfg"
  shows "(\<forall>b. 0 \<le> b \<and> b < totalBatches cfg \<longrightarrow> 0 < actualBatchSize cfg b) \<and>
         (\<Sum>b = 0 ..< totalBatches cfg. actualBatchSize cfg b) = totalRecords cfg \<and>
         (\<Sum>b = 0 ..< totalBatches cfg.
             int (length (generateBatch rnd (actualBatchSize cfg b) (userCount cfg))))
           = totalRecords cfg"
proof (intro conjI allI impI)
  fix b assume "0 \<le> b \<and> b < totalBatches cfg"
  then show "0 < actualBatchSize cfg b" using assms(2) by (intro actualBatchSize_pos) auto
next
  show total: "(\<Sum>b = 0 ..< totalBatches cfg. actualBatchSize cfg b) = totalRecords cfg"
    using assms by (rule batch_total_sum)
  have "(\<Sum>b = 0 ..< totalBatches cfg.
           int (length (generateBatch rnd (actualBatchSize cfg b) (userCount cfg))))
        = (\<Sum>b = 0 ..< totalBatches cfg. actualBatchSize cfg b)"
  proof (rule sum.cong)
    fix b assume "b \<in> {0 ..< totalBatches cfg}"
    then have "0 < actualBatchSize cfg b" using assms(2) by (intro actualBatchSize_pos) auto
    then show "int (length (generateBatch rnd (actualBatchSize cfg b) (userCount cfg)))
                 = actualBatchSize cfg b"
      by (simp add: length_generateBatch)
  qed simp
  with total show "(\<Sum>b = 0 ..< totalBatches cfg.
             int (length (generateBatch rnd (actualBatchSize cfg b) (userCount cfg))))
           = totalRecords cfg" by simp
qed

theorem C9_batch_sizes_cover_total_witness:
  "1 \<le> totalRecords cfg_small \<and> 1 \<le> batchSize cfg_small \<and>
   totalBatches cfg_small = 3 \<and>
   map (actualBatchSize cfg_small) [0, 1, 2] = [2, 2, 1] \<and>
   (\<Sum>b = 0 ..< totalBatches cfg_small. actualBatchSize cfg_small b) = totalRecords cfg_small \<and>
   (\<Sum>b = 0 ..< totalBatches cfg_small.
       int (length (generateBatch sample_rnd (actualBatchSize cfg_small b) (userCount cfg_small))))
     = 5"
proof -
  have h1: "1 \<le> totalRecords cfg_small" and h2: "1 \<le> batchSize cfg_small"
    by (simp_all add: cfg_small_def)
  have t: "totalBatches cfg_small = 3" by (simp add: totalBatches_div cfg_small_def)
  have m: "map (actualBatchSize cfg_small) [0, 1, 2] = [2, 2, 1]"
    by (simp add: actualBatchSize_def cfg_small_def)
  have r: "totalRecords cfg_small = 5" by (simp add: cfg_small_def)
  from C9_batch_sizes_cover_total [OF h1 h2, of sample_rnd] h1 h2 t m r show ?thesis by simp
qed

section \<open>The results object outlives a run\<close>



section \<open>A second run on the same instance\<close>

text \<open>
  The completion test of line 120 adds the successes of the current run to
  \<open>this.results.errors\<close>, which counts the failures of all runs of the instance. After a
  first run with one failure, a second run of two batches resolves when its first batch
  has succeeded; the second batch is never queued. The statements about a whole run in
  this theory are therefore made for a new instance, which is how every caller in the
  repository runs a test.
\<close>

lemma reused_instance_resolves_early:
  "exec cfg_two evs_two_first (runConcurrentWrites cfg_two WriteTest_results 0) = Some st_two_first \<and>
   w_errors (this_results st_two_first) = 1 \<and>
   exec cfg_two evs_two_second (runConcurrentWrites cfg_two (this_results st_two_first) 10)
     = Some st_two_second \<and>
   totalBatches cfg_two = 2 \<and>
   idle st_two_second \<and>
   promise st_two_second = Resolved (this_results st_two_second) \<and>
   attempted st_two_second = [0] \<and>
   length (w_batches (this_results st_two_second)) = 1 \<and>
   w_errors (this_results st_two_second) = 1"
  by (simp add: idle_def attempted_def sample_states sample_defs write_run_defs)

end
